theory Spec2Isabelle
  imports Main
begin

section \<open>The macro compiler of Fractive (src/Compiler.ts)\<close>

text \<open>
  The compiler walks the CommonMark tree of one Markdown file and rewrites the macros it
  finds in text, code, link and image nodes into \<open>html_inline\<close> nodes. The tree is
  a mutable, doubly linked structure that is edited while it is walked, so it is modelled
  as a store of nodes; a reference to a node is its index in the store.
\<close>

subsection \<open>Strings\<close>

text \<open>
  JavaScript strings are modelled as \<open>string\<close>. \<open>substring s a b\<close> is
  \<^verbatim>\<open>s.substring(a, b)\<close>: both indices are clamped to the length and swapped when
  the first is the larger. A negative argument counts as 0 in JavaScript; the callers below
  compute their arguments with the truncating subtraction of \<open>nat\<close>, which gives the
  same 0.
\<close>

definition substring :: "string \<Rightarrow> nat \<Rightarrow> nat \<Rightarrow> string" where
  "substring s a b =
     (let a' = min a (length s); b' = min b (length s)
      in take (max a' b' - min a' b') (drop (min a' b') s))"

text \<open>\<^verbatim>\<open>s.substring(a)\<close>: from index \<open>a\<close> to the end.\<close>

definition substring_from :: "string \<Rightarrow> nat \<Rightarrow> string" where
  "substring_from s a = drop a s"

text \<open>\<^verbatim>\<open>s.split(c)\<close> for a one-character separator: never the empty list.\<close>

fun split_char :: "char \<Rightarrow> string \<Rightarrow> string list" where
  "split_char c [] = [[]]"
| "split_char c (x # xs) =
     (if x = c then [] # split_char c xs
      else (case split_char c xs of
              [] \<Rightarrow> [[x]]
            | t # ts \<Rightarrow> (x # t) # ts))"

text \<open>
  \<^verbatim>\<open>s.replace(pat, rep)\<close> with a string pattern: only the first occurrence is
  replaced.
\<close>

fun replace_first :: "string \<Rightarrow> string \<Rightarrow> string \<Rightarrow> string" where
  "replace_first pat rep [] = (if pat = [] then rep else [])"
| "replace_first pat rep (x # xs) =
     (if take (length pat) (x # xs) = pat then rep @ drop (length pat) (x # xs)
      else x # replace_first pat rep xs)"

text \<open>
  \<^verbatim>\<open>url.replace("%7B", "{").replace("%7D", "}")\<close>, the first statement of RenderLink
  and of RenderImage on the destination: the Markdown parser percent-encodes braces, and
  the compiler decodes the first opening and the first closing one.
\<close>

definition decode_braces :: "string \<Rightarrow> string" where
  "decode_braces url = replace_first ''%7D'' ''}'' (replace_first ''%7B'' ''{'' url)"

definition backslash :: char where
  "backslash = CHR 0x5C"

text \<open>\<^verbatim>\<open>s.split('\\').join('')\<close>: every backslash is removed.\<close>

definition strip_backslashes :: "string \<Rightarrow> string" where
  "strip_backslashes s = filter (\<lambda>c. c \<noteq> backslash) s"

text \<open>
  A counter printed inside a template string. \<open>nextInlineID\<close> is a JavaScript number
  that starts at 0 and is only ever incremented, so it is a natural number (exact up to
  \<open>2^53\<close>, more links than any build has) and prints in decimal.
\<close>

definition digit_char :: "nat \<Rightarrow> char" where
  "digit_char d = char_of (48 + d)"

fun string_of_nat :: "nat \<Rightarrow> string" where
  "string_of_nat n =
     (if n < 10 then [digit_char n] else string_of_nat (n div 10) @ [digit_char (n mod 10)])"

subsection \<open>The macro scan of RenderText\<close>

text \<open>
  The inner loop of RenderText (lines 713-728): from \<open>j = i + 1\<close> with
  \<open>braceCount = 1\<close>, an opening brace increments the counter, a closing brace
  decrements it, and the scan stops with \<^verbatim>\<open>literal.substring(i, j + 1)\<close> when
  the counter reaches 0. \<open>None\<close> is \<^verbatim>\<open>macro === null\<close> after the loop.
\<close>

function scan_macro :: "string \<Rightarrow> nat \<Rightarrow> nat \<Rightarrow> int \<Rightarrow> string option" where
  "scan_macro lit i j braceCount =
     (if j < length lit then
        (if lit ! j = CHR ''{'' then scan_macro lit i (j + 1) (braceCount + 1)
         else if lit ! j = CHR ''}'' then
           (if braceCount - 1 = 0 then Some (substring lit i (j + 1))
            else scan_macro lit i (j + 1) (braceCount - 1))
         else scan_macro lit i (j + 1) braceCount)
      else None)"
  by pat_completeness auto
termination
  by (relation "measure (\<lambda>(lit, i, j, braceCount). length lit - j)") auto

text \<open>
  The outer loop of RenderText (lines 704-792): the index of the first opening brace that
  is reached, where a backslash makes the loop skip the character after it. \<open>None\<close>
  means that the loop ran to the end of the literal. The line and column offsets that the
  loop counts are only printed in error messages, which are not modelled.
\<close>

function find_macro :: "string \<Rightarrow> nat \<Rightarrow> nat option" where
  "find_macro lit i =
     (if i < length lit then
        (if lit ! i = backslash then find_macro lit (i + 2)
         else if lit ! i = CHR ''{'' then Some i
         else find_macro lit (i + 1))
      else None)"
  by pat_completeness auto
termination
  by (relation "measure (\<lambda>(lit, i). length lit - i)") auto

declare string_of_nat.simps [simp del]
declare scan_macro.simps [simp del]
declare find_macro.simps [simp del]

subsection \<open>The document tree\<close>

text \<open>
  The node kinds of CommonMark 0.28, the library whose parser produces the tree
  (\<^verbatim>\<open>node.type\<close>).
\<close>

datatype ntype =
    Text | Softbreak | Linebreak | Emph | Strong | HtmlInline | Link | Image | Code
  | Document | Paragraph | BlockQuote | Item | ListBlock | Heading | CodeBlock | HtmlBlock
  | ThematicBreak | CustomInline | CustomBlock

text \<open>
  A node of the tree with the fields the compiler reads and writes. The parser gives every
  text, code and code_block node a string literal and every link and image node a string
  destination; the compiler reads neither field on the other kinds, where they are the
  empty string here. Source positions are only printed in error messages and are left out.
  \<open>next_sibling\<close> is the field \<^verbatim>\<open>next\<close>.
\<close>

record node =
  ntype :: ntype
  literal :: string
  destination :: string
  parent :: "nat option"
  firstChild :: "nat option"
  lastChild :: "nat option"
  prev :: "nat option"
  next_sibling :: "nat option"

type_synonym store = "node list"

text \<open>\<^verbatim>\<open>new commonmark.Node(type)\<close> with its literal set: a node linked to nothing.\<close>

definition new_node :: "ntype \<Rightarrow> string \<Rightarrow> node" where
  "new_node t lit =
     \<lparr>ntype = t, literal = lit, destination = [], parent = None, firstChild = None,
      lastChild = None, prev = None, next_sibling = None\<rparr>"

text \<open>
  Allocation: the new node is put at the end of the store, so that its reference is the
  length that the store had before.
\<close>

definition alloc :: "store \<Rightarrow> node \<Rightarrow> store" where
  "alloc s nd = s @ [nd]"

text \<open>Assignments to one field of the node behind a reference.\<close>

definition set_literal :: "store \<Rightarrow> nat \<Rightarrow> string \<Rightarrow> store" where
  "set_literal s n v = s[n := (s ! n)\<lparr>literal := v\<rparr>]"

definition set_parent :: "store \<Rightarrow> nat \<Rightarrow> nat option \<Rightarrow> store" where
  "set_parent s n v = s[n := (s ! n)\<lparr>parent := v\<rparr>]"

definition set_firstChild :: "store \<Rightarrow> nat \<Rightarrow> nat option \<Rightarrow> store" where
  "set_firstChild s n v = s[n := (s ! n)\<lparr>firstChild := v\<rparr>]"

definition set_lastChild :: "store \<Rightarrow> nat \<Rightarrow> nat option \<Rightarrow> store" where
  "set_lastChild s n v = s[n := (s ! n)\<lparr>lastChild := v\<rparr>]"

definition set_prev :: "store \<Rightarrow> nat \<Rightarrow> nat option \<Rightarrow> store" where
  "set_prev s n v = s[n := (s ! n)\<lparr>prev := v\<rparr>]"

definition set_next :: "store \<Rightarrow> nat \<Rightarrow> nat option \<Rightarrow> store" where
  "set_next s n v = s[n := (s ! n)\<lparr>next_sibling := v\<rparr>]"

subsection \<open>The tree operations of the CommonMark library\<close>

text \<open>
  The compiler edits the tree through four methods of the library's node
  (\<^verbatim>\<open>lib/node.js\<close> of CommonMark 0.28, which is not part of the repository). Each
  statement of a method is one step on the store, and every field is read from the store
  of that moment.

  \<^verbatim>\<open>unlink\<close>: the neighbours (or the parent's first and last child) are joined
  around the node, then its parent, next and prev are cleared.
\<close>

definition unlink :: "store \<Rightarrow> nat \<Rightarrow> store" where
  "unlink s n =
     (let s1 = (case prev (s ! n) of
                  Some p \<Rightarrow> set_next s p (next_sibling (s ! n))
                | None \<Rightarrow> (case parent (s ! n) of
                             Some q \<Rightarrow> set_firstChild s q (next_sibling (s ! n))
                           | None \<Rightarrow> s));
          s2 = (case next_sibling (s1 ! n) of
                  Some x \<Rightarrow> set_prev s1 x (prev (s1 ! n))
                | None \<Rightarrow> (case parent (s1 ! n) of
                             Some q \<Rightarrow> set_lastChild s1 q (prev (s1 ! n))
                           | None \<Rightarrow> s1))
      in set_prev (set_next (set_parent s2 n None) n None) n None)"

text \<open>
  \<^verbatim>\<open>n.insertAfter(sib)\<close>: \<open>sib\<close> is unlinked and becomes the next sibling of
  \<open>n\<close>. When \<open>sib\<close> ends up last, the library writes
  \<^verbatim>\<open>sibling._parent._lastChild\<close>, which throws a TypeError when \<open>n\<close> has no parent:
  that is the result \<open>None\<close>.
\<close>

definition insertAfter :: "store \<Rightarrow> nat \<Rightarrow> nat \<Rightarrow> store option" where
  "insertAfter s n sib =
     (let s1 = unlink s sib;
          s2 = set_next s1 sib (next_sibling (s1 ! n));
          s3 = (case next_sibling (s2 ! sib) of
                  Some x \<Rightarrow> set_prev s2 x (Some sib)
                | None \<Rightarrow> s2);
          s4 = set_prev s3 sib (Some n);
          s5 = set_next s4 n (Some sib);
          s6 = set_parent s5 sib (parent (s5 ! n))
      in (case next_sibling (s6 ! sib) of
            Some x \<Rightarrow> Some s6
          | None \<Rightarrow> (case parent (s6 ! sib) of
                       Some q \<Rightarrow> Some (set_lastChild s6 q (Some sib))
                     | None \<Rightarrow> None)))"

text \<open>
  \<^verbatim>\<open>n.insertBefore(sib)\<close>, the mirror image: \<open>None\<close> is the TypeError of
  \<^verbatim>\<open>sibling._parent._firstChild\<close> on a node without parent.
\<close>

definition insertBefore :: "store \<Rightarrow> nat \<Rightarrow> nat \<Rightarrow> store option" where
  "insertBefore s n sib =
     (let s1 = unlink s sib;
          s2 = set_prev s1 sib (prev (s1 ! n));
          s3 = (case prev (s2 ! sib) of
                  Some x \<Rightarrow> set_next s2 x (Some sib)
                | None \<Rightarrow> s2);
          s4 = set_next s3 sib (Some n);
          s5 = set_prev s4 n (Some sib);
          s6 = set_parent s5 sib (parent (s5 ! n))
      in (case prev (s6 ! sib) of
            Some x \<Rightarrow> Some s6
          | None \<Rightarrow> (case parent (s6 ! sib) of
                       Some q \<Rightarrow> Some (set_firstChild s6 q (Some sib))
                     | None \<Rightarrow> None)))"

text \<open>\<^verbatim>\<open>n.appendChild(child)\<close>: \<open>child\<close> is unlinked and becomes the last child.\<close>

definition appendChild :: "store \<Rightarrow> nat \<Rightarrow> nat \<Rightarrow> store" where
  "appendChild s n child =
     (let s1 = unlink s child;
          s2 = set_parent s1 child (Some n)
      in (case lastChild (s2 ! n) of
            Some l \<Rightarrow>
              (let s3 = set_next s2 l (Some child);
                   s4 = set_prev s3 child (lastChild (s3 ! n))
               in set_lastChild s4 n (Some child))
          | None \<Rightarrow> set_lastChild (set_firstChild s2 n (Some child)) n (Some child)))"

subsection \<open>The tree walker of the CommonMark library\<close>

text \<open>
  \<^verbatim>\<open>ast.walker()\<close> of the library: \<open>current\<close> is the node that the next call of
  \<^verbatim>\<open>next\<close> will report, \<open>entering\<close> says whether it is entered or left.
\<close>

record NodeWalker =
  current :: "nat option"
  root :: nat
  entering :: bool

record event =
  event_entering :: bool
  event_node :: nat

definition isContainer :: "ntype \<Rightarrow> bool" where
  "isContainer t =
     (t = Document \<or> t = BlockQuote \<or> t = ListBlock \<or> t = Item \<or> t = Paragraph \<or>
      t = Heading \<or> t = Emph \<or> t = Strong \<or> t = Link \<or> t = Image \<or>
      t = CustomInline \<or> t = CustomBlock)"

definition new_walker :: "nat \<Rightarrow> NodeWalker" where
  "new_walker r = \<lparr>current = Some r, root = r, entering = True\<rparr>"

text \<open>
  \<^verbatim>\<open>walker.next()\<close>: the event for \<open>current\<close>, and the walker moved on: into the
  first child of a container that is entered, else to the next sibling, else up to the
  parent, which is then left. \<open>None\<close> is the \<^verbatim>\<open>null\<close> that ends the loops.
\<close>

definition walker_next :: "store \<Rightarrow> NodeWalker \<Rightarrow> event option \<times> NodeWalker" where
  "walker_next s w =
     (case current w of
        None \<Rightarrow> (None, w)
      | Some cur \<Rightarrow>
          (Some \<lparr>event_entering = entering w, event_node = cur\<rparr>,
           if entering w \<and> isContainer (ntype (s ! cur)) then
             (case firstChild (s ! cur) of
                Some c \<Rightarrow> w\<lparr>current := Some c, entering := True\<rparr>
              | None \<Rightarrow> w\<lparr>entering := False\<rparr>)
           else if cur = root w then w\<lparr>current := None\<rparr>
           else (case next_sibling (s ! cur) of
                   None \<Rightarrow> w\<lparr>current := parent (s ! cur), entering := False\<rparr>
                 | Some x \<Rightarrow> w\<lparr>current := Some x, entering := True\<rparr>)))"

text \<open>
  \<^verbatim>\<open>walker.resumeAt(node)\<close> as the compiler calls it, without the second argument:
  the library then sets \<open>entering\<close> to false, so that the next event leaves \<open>node\<close>.
\<close>

definition resumeAt :: "NodeWalker \<Rightarrow> nat \<Rightarrow> NodeWalker" where
  "resumeAt w n = w\<lparr>current := Some n, entering := False\<rparr>"

subsection \<open>State and errors\<close>

text \<open>
  The two counters of the namespace (lines 78-79) live as long as the process. The state
  of one file's compilation adds the file's tree and the walker of the running loop.
\<close>

record globals =
  nextInlineID :: nat
  sectionCount :: nat

record state = globals +
  ast :: store
  walker :: NodeWalker

text \<open>
  The source reports an error by printing a message and returning \<^verbatim>\<open>false\<close>.
  The error value names the message:
  \<^item> \<open>UnterminatedMacro\<close>: "Unterminated macro ..." (text, link, image);
  \<^item> \<open>UnknownMacro\<close>: "Unknown macro ... in image URL";
  \<^item> \<open>UnrecognizedMacro\<close>: "Unrecognized macro ..." (text, link);
  \<^item> \<open>InvalidSectionPlacement\<close>: "Section macro ... must be defined in its own
    paragraph/on its own line" and "... cannot be defined inside another block element";
  \<^item> \<open>SectionAsImageSource\<close>: "... section macros cannot be used as image sources";
  \<^item> \<open>InvalidLinkMacro\<close>: "Variable macros can't be used as link destinations";
  \<^item> \<open>NoParent\<close>: "Node for ... has no parent";
  \<^item> \<open>IllegalNode\<close>: "... received a ... node, which is illegal".

  \<open>TypeError\<close> is not a returned value: it is the exception that the library throws
  in \<open>insertAfter\<close> and \<open>insertBefore\<close>, which nothing in the compiler catches.
\<close>

datatype error =
    UnterminatedMacro | UnknownMacro | UnrecognizedMacro | InvalidSectionPlacement
  | SectionAsImageSource | InvalidLinkMacro | NoParent | IllegalNode | TypeError

text \<open>
  What a function that returns a boolean leaves behind: \<open>Ok\<close> is \<^verbatim>\<open>true\<close>,
  \<open>Failed\<close> is \<^verbatim>\<open>false\<close> with the error that was printed, each with the state
  after the call.
\<close>

datatype 'a result = Ok 'a | Failed error 'a

text \<open>\<^verbatim>\<open>s[i]\<close> on a string: \<open>None\<close> is \<^verbatim>\<open>undefined\<close>.\<close>

definition char_at :: "string \<Rightarrow> nat \<Rightarrow> char option" where
  "char_at s i = (if i < length s then Some (s ! i) else None)"

text \<open>
  The loop that both InsertHtmlIntoNode (lines 328-332) and RewriteLinkNode (lines
  821-825) run over \<open>dataAttrs\<close>, a list of attribute and value.
\<close>

definition data_attrs :: "(string \<times> string) list \<Rightarrow> string" where
  \<open>data_attrs dataAttrs =
     concat (map (\<lambda>a. '' data-'' @ fst a @ ''="'' @ snd a @ ''"'') dataAttrs)\<close>

subsection \<open>InsertHtmlIntoNode (lines 320-366)\<close>

definition InsertHtmlIntoNode ::
  "store \<Rightarrow> nat \<Rightarrow> nat \<Rightarrow> nat \<Rightarrow> (string \<times> string) list \<Rightarrow> (store \<times> nat) option" where
  "InsertHtmlIntoNode s rootNode startIndex endIndex dataAttrs =
     (let preContent = substring (literal (s ! rootNode)) 0 startIndex;
          postContent = substring_from (literal (s ! rootNode)) endIndex;
          s1 = set_literal s rootNode preContent;
          attrs = data_attrs dataAttrs;
          htmlNode = length s1;
          s2 = alloc s1 (new_node HtmlInline
             (case ntype (s1 ! rootNode) of
                Code \<Rightarrow> ''<code><span'' @ attrs @ ''></span></code>''
              | CodeBlock \<Rightarrow> ''<pre><code><span'' @ attrs @ ''></span></code></pre>''
              | _ \<Rightarrow> ''<span'' @ attrs @ ''></span>''))
      in (case insertAfter s2 rootNode htmlNode of
            None \<Rightarrow> None
          | Some s3 \<Rightarrow>
              (let s4 = (if literal (s3 ! rootNode) = [] then unlink s3 rootNode else s3)
               in if postContent \<noteq> [] then
                    (let postNode = length s4;
                         s5 = alloc s4 (new_node (ntype (s4 ! rootNode)) postContent)
                     in (case insertAfter s5 htmlNode postNode of
                           None \<Rightarrow> None
                         | Some s6 \<Rightarrow> Some (s6, htmlNode)))
                  else Some (s4, htmlNode))))"

subsection \<open>Links: GetLinkText, RewriteLinkNode, RenderLink\<close>

text \<open>
  The HTML renderer of the library (\<^verbatim>\<open>markdownWriter.render\<close>) is not part of the
  repository: it is a parameter, a function from the tree and a node to the HTML of the
  node's subtree.
\<close>

type_synonym renderer = "store \<Rightarrow> nat \<Rightarrow> string"

text \<open>
  GetLinkText (lines 270-290): the rendered link without everything up to the first
  \<open>>\<close> and without its last four characters. \<open>None\<close> is \<^verbatim>\<open>null\<close>.
\<close>

definition GetLinkText :: "renderer \<Rightarrow> store \<Rightarrow> nat \<Rightarrow> string option" where
  "GetLinkText render s node =
     (if ntype (s ! node) \<noteq> Link then None
      else (let html = render s node;
                i = length (takeWhile (\<lambda>c. c \<noteq> CHR ''>'') html)
            in Some (if i < length html then substring html (i + 1) (length html - 4)
                     else html)))"

text \<open>
  The three statements that replace a node by a new \<open>html_inline\<close> node, in
  RewriteLinkNode (lines 820-830) and twice in RenderImage (lines 563-566, 586-589):
  the new node is inserted before the old one, which is then unlinked. The reference of
  the new node is the length of the store \<open>s\<close>.
\<close>

definition replace_by_html :: "store \<Rightarrow> nat \<Rightarrow> string \<Rightarrow> store option" where
  "replace_by_html s node lit =
     (let newNode = length s;
          s1 = alloc s (new_node HtmlInline lit)
      in (case insertBefore s1 node newNode of
            None \<Rightarrow> None
          | Some s2 \<Rightarrow> Some (unlink s2 node)))"

text \<open>
  RewriteLinkNode (lines 811-833). A \<^verbatim>\<open>null\<close> link text or id is printed by the
  template string as \<open>null\<close>.
\<close>

definition RewriteLinkNode ::
  "store \<Rightarrow> nat \<Rightarrow> (string \<times> string) list \<Rightarrow> string option \<Rightarrow> string option
     \<Rightarrow> store result" where
  \<open>RewriteLinkNode s node dataAttrs linkText id' =
     (if ntype (s ! node) \<noteq> Link then Failed IllegalNode s
      else (let attrs = data_attrs dataAttrs;
                text = (case linkText of None \<Rightarrow> ''null'' | Some t \<Rightarrow> t);
                lit = (case id' of
                         None \<Rightarrow> ''<a href="#"'' @ attrs @ ''>'' @ text @ ''</a>''
                       | Some i \<Rightarrow>
                           ''<a href="#" id="'' @ i @ ''"'' @ attrs @ ''>'' @ text @ ''</a>'')
            in (case replace_by_html s node lit of
                  None \<Rightarrow> Failed TypeError s
                | Some s' \<Rightarrow> Ok s')))\<close>

text \<open>
  RenderLink (lines 611-684). The test \<^verbatim>\<open>!walker || !event\<close> at its head never
  holds for the caller's arguments and is left out, here and in RenderImage and
  RenderText. The counter is incremented while the arguments of RewriteLinkNode are
  evaluated, before the call.
\<close>

definition RenderLink :: "renderer \<Rightarrow> state \<Rightarrow> event \<Rightarrow> state result" where
  "RenderLink render st event =
     (let node = event_node event in
      if ntype (ast st ! node) \<noteq> Link then Failed IllegalNode st
      else if event_entering event then Ok st
      else
        (let url = decode_braces (destination (ast st ! node)) in
         if char_at url 0 \<noteq> Some CHR ''{'' then Ok st
         else if char_at url (length url - 1) \<noteq> Some CHR ''}'' then Failed UnterminatedMacro st
         else
           (let tokens = split_char CHR '':'' (substring url 1 (length url - 1));
                url = hd tokens;
                modifier = (if length tokens > 1 then tokens ! 1 else [])
            in if modifier = ''inline'' then
                 (let linkText = GetLinkText render (ast st) node;
                      id' = ''_inline-'' @ string_of_nat (nextInlineID st);
                      st1 = st\<lparr>nextInlineID := nextInlineID st + 1\<rparr>
                  in (case RewriteLinkNode (ast st1) node [(''replace-with'', url)]
                             linkText (Some id') of
                        Failed e s' \<Rightarrow> Failed e (st1\<lparr>ast := s'\<rparr>)
                      | Ok s' \<Rightarrow> Ok (st1\<lparr>ast := s'\<rparr>)))
               else if char_at url 0 = Some CHR ''@'' then
                 (case RewriteLinkNode (ast st) node [(''goto-section'', substring_from url 1)]
                         (GetLinkText render (ast st) node) None of
                    Failed e s' \<Rightarrow> Failed e (st\<lparr>ast := s'\<rparr>)
                  | Ok s' \<Rightarrow> Ok (st\<lparr>ast := s'\<rparr>))
               else if char_at url 0 = Some CHR ''#'' then
                 (case RewriteLinkNode (ast st) node [(''call-function'', substring_from url 1)]
                         (GetLinkText render (ast st) node) None of
                    Failed e s' \<Rightarrow> Failed e (st\<lparr>ast := s'\<rparr>)
                  | Ok s' \<Rightarrow> Ok (st\<lparr>ast := s'\<rparr>))
               else if char_at url 0 = Some CHR ''$'' then Failed InvalidLinkMacro st
               else Failed UnrecognizedMacro st)))"

subsection \<open>RenderImage (lines 535-602)\<close>

text \<open>
  The new node of \<open>replace_by_html\<close>, at which the walker is resumed, has the length
  of the store before the call as its reference.
\<close>

definition RenderImage :: "state \<Rightarrow> event \<Rightarrow> state result" where
  \<open>RenderImage st event =
     (let node = event_node event in
      if ntype (ast st ! node) \<noteq> Image then Failed IllegalNode st
      else
        (let child = firstChild (ast st ! node);
             isText = (child \<noteq> None \<and> ntype (ast st ! the child) = Text);
             alt = (if isText then literal (ast st ! the child) else []);
             s1 = (if isText then unlink (ast st) (the child) else ast st);
             url = decode_braces (destination (s1 ! node))
         in if char_at url 0 \<noteq> Some CHR ''{'' then
              (case replace_by_html s1 node
                      (''<img src="'' @ url @ ''" alt="'' @ alt @ ''" title="'' @ alt @ ''">'') of
                 None \<Rightarrow> Failed TypeError (st\<lparr>ast := s1\<rparr>)
               | Some s2 \<Rightarrow>
                   Ok (st\<lparr>ast := s2, walker := resumeAt (walker st) (length s1)\<rparr>))
            else if char_at url (length url - 1) \<noteq> Some CHR ''}'' then
              Failed UnterminatedMacro (st\<lparr>ast := s1\<rparr>)
            else if char_at url 1 = Some CHR ''@'' then
              Failed SectionAsImageSource (st\<lparr>ast := s1\<rparr>)
            else if char_at url 1 = Some CHR ''#'' \<or> char_at url 1 = Some CHR ''$'' then
              (case replace_by_html s1 node
                      (''<img data-image-source-macro="'' @ substring url 1 (length url - 1)
                        @ ''" src="#" alt="'' @ alt @ ''" title="'' @ alt @ ''">'') of
                 None \<Rightarrow> Failed TypeError (st\<lparr>ast := s1\<rparr>)
               | Some s2 \<Rightarrow>
                   Ok (st\<lparr>ast := s2, walker := resumeAt (walker st) (length s1)\<rparr>))
            else Failed UnknownMacro (st\<lparr>ast := s1\<rparr>)))\<close>

subsection \<open>RenderText (lines 693-799)\<close>

text \<open>
  The section branch (lines 737-768) for the macro found in the literal of \<open>node\<close>:
  the new node is created first, then the placement is tested.
\<close>

definition begin_section :: "state \<Rightarrow> nat \<Rightarrow> string \<Rightarrow> state result" where
  \<open>begin_section st node macro =
     (case parent (ast st ! node) of
        None \<Rightarrow> Failed NoParent st
      | Some par \<Rightarrow>
          (let insertedNode = length (ast st);
               s1 = alloc (ast st) (new_node HtmlInline
                 ((if sectionCount st > 0 then ''</div>'' @ [CHR 0x0A] else [])
                  @ ''<div id="'' @ substring macro 2 (length macro - 2)
                  @ ''" class="section" hidden="true">''))
           in if prev (s1 ! node) \<noteq> None then Failed InvalidSectionPlacement (st\<lparr>ast := s1\<rparr>)
              else if ntype (s1 ! par) = Paragraph then
                (case insertAfter s1 par insertedNode of
                   None \<Rightarrow> Failed TypeError (st\<lparr>ast := s1\<rparr>)
                 | Some s2 \<Rightarrow>
                     Ok (st\<lparr>ast := unlink s2 par, sectionCount := sectionCount st + 1,
                            walker := resumeAt (walker st) insertedNode\<rparr>))
              else Failed InvalidSectionPlacement (st\<lparr>ast := s1\<rparr>)))\<close>

text \<open>
  The body of the loop of RenderText at the opening brace that it reaches at index
  \<open>i\<close> (lines 712-783).
\<close>

definition rewrite_macro :: "state \<Rightarrow> nat \<Rightarrow> nat \<Rightarrow> state result" where
  "rewrite_macro st node i =
     (case scan_macro (literal (ast st ! node)) i (i + 1) 1 of
        None \<Rightarrow> Failed UnterminatedMacro st
      | Some macro \<Rightarrow>
          if char_at macro 1 = Some CHR ''{'' then begin_section st node macro
          else if char_at macro 1 = Some CHR ''@'' \<or> char_at macro 1 = Some CHR ''#''
                  \<or> char_at macro 1 = Some CHR ''$'' then
            (case InsertHtmlIntoNode (ast st) node i (i + length macro)
                    [(''expand-macro'', substring macro 1 (length macro - 1))] of
               None \<Rightarrow> Failed TypeError st
             | Some r \<Rightarrow> Ok (st\<lparr>ast := fst r, walker := resumeAt (walker st) (snd r)\<rparr>))
          else Failed UnrecognizedMacro st)"

text \<open>
  RenderText: the loop stops at the first opening brace that is not skipped; the macro
  that starts there is rewritten, the walker is resumed at the inserted node and the loop
  is left (\<^verbatim>\<open>break\<close>). The last statement then strips the backslashes from the
  literal that the node has at that moment.
\<close>

definition RenderText :: "state \<Rightarrow> event \<Rightarrow> state result" where
  "RenderText st event =
     (let node = event_node event in
      (case (case find_macro (literal (ast st ! node)) 0 of
               None \<Rightarrow> Ok st
             | Some i \<Rightarrow> rewrite_macro st node i) of
         Failed e st1 \<Rightarrow> Failed e st1
       | Ok st1 \<Rightarrow>
           Ok (st1\<lparr>ast := set_literal (ast st1) node
                              (strip_backslashes (literal (ast st1 ! node)))\<rparr>)))"

subsection \<open>RenderFile (lines 443-526)\<close>

text \<open>
  The loops of RenderFile run until the walker returns \<^verbatim>\<open>null\<close>. They are modelled
  with fuel, the number of events that a loop may still take: \<open>None\<close> means that the
  fuel ran out before the loop ended.

  The first loop (lines 460-474) consolidates adjacent text nodes; \<open>prevNode\<close> is
  undefined before the first event.
\<close>

fun consolidate :: "nat \<Rightarrow> store \<Rightarrow> NodeWalker \<Rightarrow> nat option \<Rightarrow> store option" where
  "consolidate 0 s w prevNode = None"
| "consolidate (Suc fuel) s w prevNode =
     (case fst (walker_next s w) of
        None \<Rightarrow> Some s
      | Some event \<Rightarrow>
          (let node = event_node event in
           if ntype (s ! node) = Text \<and> prevNode \<noteq> None \<and> ntype (s ! the prevNode) = Text
           then
             (let s1 = (if literal (s ! node) \<noteq> []
                        then set_literal s (the prevNode)
                               (literal (s ! the prevNode) @ literal (s ! node))
                        else s)
              in consolidate fuel (unlink s1 node) (snd (walker_next s w)) prevNode)
           else consolidate fuel s (snd (walker_next s w)) (Some node)))"

text \<open>The body of the second loop (lines 488-508): the switch on the node's type.\<close>

definition render_event :: "renderer \<Rightarrow> state \<Rightarrow> event \<Rightarrow> state result" where
  "render_event render st event =
     (case ntype (ast st ! event_node event) of
        Link \<Rightarrow> RenderLink render st event
      | Text \<Rightarrow> RenderText st event
      | Code \<Rightarrow> RenderText st event
      | CodeBlock \<Rightarrow> RenderText st event
      | Image \<Rightarrow> RenderImage st event
      | _ \<Rightarrow> Ok st)"

text \<open>The second loop (lines 486-509): it is left at the first error.\<close>

fun render_loop :: "nat \<Rightarrow> renderer \<Rightarrow> state \<Rightarrow> state result option" where
  "render_loop 0 render st = None"
| "render_loop (Suc fuel) render st =
     (case fst (walker_next (ast st) (walker st)) of
        None \<Rightarrow> Some (Ok (st\<lparr>walker := snd (walker_next (ast st) (walker st))\<rparr>))
      | Some event \<Rightarrow>
          (case render_event render
                  (st\<lparr>walker := snd (walker_next (ast st) (walker st))\<rparr>) event of
             Failed e st' \<Rightarrow> Some (Failed e st')
           | Ok st' \<Rightarrow> render_loop fuel render st'))"

text \<open>
  Lines 511-516: a new walker's first event is the root of the tree, and the closing
  \<open></div>\<close> becomes the last child of that node.
\<close>

definition close_final_section :: "store \<Rightarrow> nat \<Rightarrow> store" where
  "close_final_section s r =
     (case fst (walker_next s (new_walker r)) of
        None \<Rightarrow> s
      | Some firstEvent \<Rightarrow>
          (let closingNode = length s;
               s1 = alloc s (new_node HtmlInline ''</div>'')
           in appendChild s1 (event_node firstEvent) closingNode))"

text \<open>
  RenderFile, from the parsed tree on: reading and parsing the file are the library's and
  the file system's part, so the arguments are the tree that the parser returned, as the
  store \<open>s\<close> and the reference \<open>r\<close> of the document node. The result is the
  rendered HTML (\<open>Inr\<close>), or the error for which the source returns \<^verbatim>\<open>null\<close>
  (\<open>Inl\<close>; a \<open>TypeError\<close> propagates instead), with the counters as the call leaves
  them. \<open>None\<close>: the fuel ran out.
\<close>

record rendered =
  returned :: "error + string"
  counters_after :: globals

definition RenderFile ::
  "nat \<Rightarrow> renderer \<Rightarrow> store \<Rightarrow> nat \<Rightarrow> globals \<Rightarrow> rendered option" where
  "RenderFile fuel render s r g =
     (case consolidate fuel s (new_walker r) None of
        None \<Rightarrow> None
      | Some s0 \<Rightarrow>
          (case render_loop fuel render
                  \<lparr>nextInlineID = nextInlineID g, sectionCount = 0, ast = s0,
                   walker = new_walker r\<rparr> of
             None \<Rightarrow> None
           | Some (Failed e st) \<Rightarrow>
               Some \<lparr>returned = Inl e,
                     counters_after =
                       \<lparr>nextInlineID = nextInlineID st, sectionCount = sectionCount st\<rparr>\<rparr>
           | Some (Ok st) \<Rightarrow>
               Some \<lparr>returned = Inr (render (close_final_section (ast st) r) r),
                     counters_after =
                       \<lparr>nextInlineID = nextInlineID st, sectionCount = sectionCount st\<rparr>\<rparr>))"

subsection \<open>Compile: the loop over the Markdown files (lines 217-227)\<close>

text \<open>
  A file is its name and the tree that the parser returns for it. The state of the loop:
  the counters of the namespace, \<open>errorCount\<close> and the HTML collected so far.
\<close>

record source_file =
  file_name :: string
  file_nodes :: store
  file_root :: nat

record build =
  counters :: globals
  errorCount :: nat
  html :: string

text \<open>
  Every file of the list is rendered; a \<^verbatim>\<open>null\<close> counts as an error and the loop
  goes on. \<open>Inl TypeError\<close> is the uncaught exception, which ends the process inside
  the loop; \<open>None\<close>: the fuel of a file ran out.
\<close>

fun compile_loop ::
  "nat \<Rightarrow> renderer \<Rightarrow> source_file list \<Rightarrow> build \<Rightarrow> (error + build) option" where
  "compile_loop fuel render [] b = Some (Inr b)"
| "compile_loop fuel render (f # files) b =
     (case RenderFile fuel render (file_nodes f) (file_root f) (counters b) of
        None \<Rightarrow> None
      | Some rendered \<Rightarrow>
          (case returned rendered of
             Inl e \<Rightarrow>
               if e = TypeError then Some (Inl TypeError)
               else compile_loop fuel render files
                      (b\<lparr>counters := counters_after rendered, errorCount := errorCount b + 1\<rparr>)
           | Inr text \<Rightarrow>
               compile_loop fuel render files
                 (b\<lparr>counters := counters_after rendered,
                    html := html b @ ''<!-- '' @ file_name f @ '' -->'' @ [CHR 0x0A]
                              @ text @ [CHR 0x0A]\<rparr>)))"

text \<open>
  The outcome of the Markdown phase of Compile: after the loop, the process exits with
  status 1 when a file failed; otherwise the build goes on with the collected HTML.
\<close>

datatype outcome = Exit nat | Continue string | Uncaught error

definition Compile :: "nat \<Rightarrow> renderer \<Rightarrow> source_file list \<Rightarrow> globals \<Rightarrow> outcome option" where
  "Compile fuel render files g =
     (case compile_loop fuel render files \<lparr>counters = g, errorCount = 0, html = []\<rparr> of
        None \<Rightarrow> None
      | Some (Inl e) \<Rightarrow> Some (Uncaught e)
      | Some (Inr b) \<Rightarrow> Some (if errorCount b > 0 then Exit 1 else Continue (html b)))"

subsection \<open>Notions of the specification\<close>

text \<open>
  The brace depth of a string, in the words of the specification: every opening brace
  increments the depth and every closing brace decrements it.
\<close>

fun brace_depth :: "string \<Rightarrow> int" where
  "brace_depth [] = 0"
| "brace_depth (c # cs) =
     (if c = CHR ''{'' then 1 else if c = CHR ''}'' then - 1 else 0) + brace_depth cs"

subsection \<open>Example documents\<close>

text \<open>
  The tree of a document with one paragraph that holds one leaf of kind \<open>t\<close> with the
  literal \<open>lit\<close>: the document is node 0, the paragraph node 1, the leaf node 2.
\<close>

definition leaf_document :: "ntype \<Rightarrow> string \<Rightarrow> store" where
  "leaf_document t lit =
     [\<lparr>ntype = Document, literal = [], destination = [], parent = None,
       firstChild = Some 1, lastChild = Some 1, prev = None, next_sibling = None\<rparr>,
      \<lparr>ntype = Paragraph, literal = [], destination = [], parent = Some 0,
       firstChild = Some 2, lastChild = Some 2, prev = None, next_sibling = None\<rparr>,
      \<lparr>ntype = t, literal = lit, destination = [], parent = Some 1,
       firstChild = None, lastChild = None, prev = None, next_sibling = None\<rparr>]"

text \<open>The state in which the second loop of RenderFile starts on a tree with root 0.\<close>

definition start_state :: "store \<Rightarrow> state" where
  "start_state s = \<lparr>nextInlineID = 0, sectionCount = 0, ast = s, walker = new_walker 0\<rparr>"

definition entering_event :: "nat \<Rightarrow> event" where
  "entering_event n = \<lparr>event_entering = True, event_node = n\<rparr>"

definition leaving_event :: "nat \<Rightarrow> event" where
  "leaving_event n = \<lparr>event_entering = False, event_node = n\<rparr>"

subsection \<open>The children of a node\<close>

text \<open>
  \<open>siblings s p before xs after\<close>: the nodes \<open>xs\<close> are linked to each other in this
  order by their \<open>prev\<close> and \<open>next\<close> fields, each has the parent \<open>p\<close>, the first
  one has \<open>before\<close> as its \<open>prev\<close> and the last one has \<open>after\<close> as its
  \<open>next\<close>.
\<close>

fun siblings :: "store \<Rightarrow> nat \<Rightarrow> nat option \<Rightarrow> nat list \<Rightarrow> nat option \<Rightarrow> bool" where
  "siblings s p before [] after = True"
| "siblings s p before (x # xs) after =
     (x < length s \<and> parent (s ! x) = Some p \<and> prev (s ! x) = before \<and>
      next_sibling (s ! x) = (case xs of [] \<Rightarrow> after | y # ys \<Rightarrow> Some y) \<and>
      siblings s p (Some x) xs after)"

text \<open>
  \<open>children_are s p xs\<close>: the children of the node \<open>p\<close> are the nodes \<open>xs\<close>, in
  document order.
\<close>

definition children_are :: "store \<Rightarrow> nat \<Rightarrow> nat list \<Rightarrow> bool" where
  "children_are s p xs =
     (p < length s \<and> distinct xs \<and> p \<notin> set xs \<and>
      firstChild (s ! p) = (case xs of [] \<Rightarrow> None | x # ys \<Rightarrow> Some x) \<and>
      lastChild (s ! p) = (if xs = [] then None else Some (last xs)) \<and>
      siblings s p None xs None)"

text \<open>A node that is linked to no parent and no sibling, as a new node is.\<close>

definition detached :: "store \<Rightarrow> nat \<Rightarrow> bool" where
  "detached s n = (parent (s ! n) = None \<and> prev (s ! n) = None \<and> next_sibling (s ! n) = None)"

text \<open>The fields that the tree operations never write.\<close>

definition content :: "node \<Rightarrow> ntype \<times> string \<times> string" where
  "content nd = (ntype nd, literal nd, destination nd)"

text \<open>
  The tree of a document with one paragraph that holds one link to \<open>dest\<close> with the
  text \<open>go\<close>: the link is node 2, its text node 3.
\<close>

definition link_document :: "string \<Rightarrow> store" where
  "link_document dest =
     [\<lparr>ntype = Document, literal = [], destination = [], parent = None,
       firstChild = Some 1, lastChild = Some 1, prev = None, next_sibling = None\<rparr>,
      \<lparr>ntype = Paragraph, literal = [], destination = [], parent = Some 0,
       firstChild = Some 2, lastChild = Some 2, prev = None, next_sibling = None\<rparr>,
      \<lparr>ntype = Link, literal = [], destination = dest, parent = Some 1,
       firstChild = Some 3, lastChild = Some 3, prev = None, next_sibling = None\<rparr>,
      \<lparr>ntype = Text, literal = ''go'', destination = [], parent = Some 2,
       firstChild = None, lastChild = None, prev = None, next_sibling = None\<rparr>]"

text \<open>The state that a call leaves behind, whatever it returned.\<close>

fun state_of :: "'a result \<Rightarrow> 'a" where
  "state_of (Ok st) = st"
| "state_of (Failed e st) = st"

text \<open>Two files that each hold one link with the destination \<open>{#bar:inline}\<close>.\<close>

definition two_inline :: "source_file list" where
  "two_inline =
     [\<lparr>file_name = ''a.md'', file_nodes = link_document ''%7B#bar:inline%7D'', file_root = 0\<rparr>,
      \<lparr>file_name = ''b.md'', file_nodes = link_document ''%7B#bar:inline%7D'', file_root = 0\<rparr>]"

text \<open>
  The tree of a document with one paragraph that holds one image with the destination
  \<open>dest\<close> and the description \<open>pic\<close>: the image is node 2, its text node 3.
\<close>

definition image_document :: "string \<Rightarrow> store" where
  "image_document dest =
     [\<lparr>ntype = Document, literal = [], destination = [], parent = None,
       firstChild = Some 1, lastChild = Some 1, prev = None, next_sibling = None\<rparr>,
      \<lparr>ntype = Paragraph, literal = [], destination = [], parent = Some 0,
       firstChild = Some 2, lastChild = Some 2, prev = None, next_sibling = None\<rparr>,
      \<lparr>ntype = Image, literal = [], destination = dest, parent = Some 1,
       firstChild = Some 3, lastChild = Some 3, prev = None, next_sibling = None\<rparr>,
      \<lparr>ntype = Text, literal = ''pic'', destination = [], parent = Some 2,
       firstChild = None, lastChild = None, prev = None, next_sibling = None\<rparr>]"

text \<open>
  The tree of a document with two paragraphs, each with one text node: the paragraphs are
  the nodes 1 and 3, their texts the nodes 2 and 4.
\<close>

definition two_paragraphs :: "string \<Rightarrow> string \<Rightarrow> store" where
  "two_paragraphs a b =
     [\<lparr>ntype = Document, literal = [], destination = [], parent = None,
       firstChild = Some 1, lastChild = Some 3, prev = None, next_sibling = None\<rparr>,
      \<lparr>ntype = Paragraph, literal = [], destination = [], parent = Some 0,
       firstChild = Some 2, lastChild = Some 2, prev = None, next_sibling = Some 3\<rparr>,
      \<lparr>ntype = Text, literal = a, destination = [], parent = Some 1,
       firstChild = None, lastChild = None, prev = None, next_sibling = None\<rparr>,
      \<lparr>ntype = Paragraph, literal = [], destination = [], parent = Some 0,
       firstChild = Some 4, lastChild = Some 4, prev = Some 1, next_sibling = None\<rparr>,
      \<lparr>ntype = Text, literal = b, destination = [], parent = Some 3,
       firstChild = None, lastChild = None, prev = None, next_sibling = None\<rparr>]"

text \<open>
  The tree of a document whose only block is a block quote with one paragraph with one
  text node: the quote is node 1, the paragraph node 2, the text node 3.
\<close>

definition quoted_document :: "string \<Rightarrow> store" where
  "quoted_document lit =
     [\<lparr>ntype = Document, literal = [], destination = [], parent = None,
       firstChild = Some 1, lastChild = Some 1, prev = None, next_sibling = None\<rparr>,
      \<lparr>ntype = BlockQuote, literal = [], destination = [], parent = Some 0,
       firstChild = Some 2, lastChild = Some 2, prev = None, next_sibling = None\<rparr>,
      \<lparr>ntype = Paragraph, literal = [], destination = [], parent = Some 1,
       firstChild = Some 3, lastChild = Some 3, prev = None, next_sibling = None\<rparr>,
      \<lparr>ntype = Text, literal = lit, destination = [], parent = Some 2,
       firstChild = None, lastChild = None, prev = None, next_sibling = None\<rparr>]"

section \<open>Evaluation\<close>

text \<open>
  The definitions that the simplifier unfolds to run the model on a concrete tree, and the
  congruence rules that make it evaluate the scrutinee of a \<open>case\<close> and the bound
  value of a \<open>let\<close> before the body.
\<close>

lemmas store_eval = set_literal_def set_parent_def set_firstChild_def set_lastChild_def
  set_prev_def set_next_def alloc_def new_node_def unlink_def insertAfter_def insertBefore_def
  appendChild_def

lemmas string_eval = substring_def substring_from_def data_attrs_def strip_backslashes_def
  backslash_def char_at_def decode_braces_def

lemmas render_eval = RenderText_def rewrite_macro_def begin_section_def InsertHtmlIntoNode_def
  RenderLink_def RenderImage_def RewriteLinkNode_def replace_by_html_def render_event_def
  walker_next_def new_walker_def resumeAt_def isContainer_def close_final_section_def

lemmas eval_congs = let_weak_cong option.case_cong_weak ntype.case_cong_weak
  list.case_cong_weak result.case_cong_weak sum.case_cong_weak

lemma string_of_nat_small:
  "string_of_nat 0 = ''0''" "string_of_nat (Suc 0) = ''1''" "string_of_nat 12 = ''12''"
  by code_simp+

section \<open>Properties\<close>

subsection \<open>The macro scan\<close>

lemma brace_depth_append: "brace_depth (xs @ ys) = brace_depth xs + brace_depth ys"
  by (induction xs) auto

lemma substring_Suc:
  assumes "i \<le> j" "j < length lit"
  shows "substring lit i (Suc j) = substring lit i j @ [lit ! j]"
proof -
  have "take (Suc j - i) (drop i lit) = take (j - i) (drop i lit) @ [drop i lit ! (j - i)]"
    using assms by (simp add: Suc_diff_le take_Suc_conv_app_nth)
  then show ?thesis using assms by (simp add: substring_def Let_def min_def max_def)
qed

lemma brace_depth_step:
  assumes "i \<le> j" "j < length lit"
  shows "brace_depth (substring lit i (Suc j)) =
         brace_depth (substring lit i j) +
           (if lit ! j = CHR ''{'' then 1 else if lit ! j = CHR ''}'' then - 1 else 0)"
  using assms by (simp add: substring_Suc brace_depth_append)

text \<open>
  The invariant of the inner loop: \<open>braceCount\<close> is the depth of the part of the
  literal between \<open>i\<close> and \<open>j\<close>, and it is positive.
\<close>

lemma scan_macro_Some:
  assumes "scan_macro lit i j b = Some m" "i \<le> j" "b = brace_depth (substring lit i j)" "1 \<le> b"
  shows "\<exists>e. j \<le> e \<and> e < length lit \<and> m = substring lit i (e + 1) \<and> brace_depth m = 0 \<and>
             (\<forall>k. j \<le> k \<and> k < e \<longrightarrow> 0 < brace_depth (substring lit i (k + 1)))"
  using assms
proof (induction lit i j b rule: scan_macro.induct)
  case (1 lit i j b)
  from "1.prems"(1) have jl: "j < length lit"
    by (subst (asm) scan_macro.simps) (simp split: if_splits)
  have step: "brace_depth (substring lit i (j + 1)) =
         b + (if lit ! j = CHR ''{'' then 1 else if lit ! j = CHR ''}'' then - 1 else 0)"
    using brace_depth_step[of i j lit] "1.prems" jl by simp
  have extend: "\<exists>e. j \<le> e \<and> e < length lit \<and> m = substring lit i (e + 1) \<and> brace_depth m = 0 \<and>
             (\<forall>k. j \<le> k \<and> k < e \<longrightarrow> 0 < brace_depth (substring lit i (k + 1)))"
    if e: "j + 1 \<le> e" "e < length lit" "m = substring lit i (e + 1)" "brace_depth m = 0"
      "\<forall>k. j + 1 \<le> k \<and> k < e \<longrightarrow> 0 < brace_depth (substring lit i (k + 1))"
      and here: "0 < brace_depth (substring lit i (j + 1))" for e
  proof -
    have "\<forall>k. j \<le> k \<and> k < e \<longrightarrow> 0 < brace_depth (substring lit i (k + 1))"
    proof (intro allI impI)
      fix k assume k: "j \<le> k \<and> k < e"
      show "0 < brace_depth (substring lit i (k + 1))"
      proof (cases "k = j")
        case True then show ?thesis using here by simp
      next
        case False then show ?thesis using e(5) k by simp
      qed
    qed
    with e show ?thesis by (intro exI[of _ e]) simp
  qed
  consider (open_brace) "lit ! j = CHR ''{''"
    | (close_end) "lit ! j \<noteq> CHR ''{''" "lit ! j = CHR ''}''" "b - 1 = 0"
    | (close_go) "lit ! j \<noteq> CHR ''{''" "lit ! j = CHR ''}''" "b - 1 \<noteq> 0"
    | (other) "lit ! j \<noteq> CHR ''{''" "lit ! j \<noteq> CHR ''}''" by blast
  then show ?case
  proof cases
    case open_brace
    then have "scan_macro lit i (j + 1) (b + 1) = Some m"
      using "1.prems"(1) jl by (subst (asm) scan_macro.simps) simp
    from "1.IH"(1)[OF jl open_brace this] step open_brace "1.prems"
    obtain e where "j + 1 \<le> e" "e < length lit" "m = substring lit i (e + 1)" "brace_depth m = 0"
      "\<forall>k. j + 1 \<le> k \<and> k < e \<longrightarrow> 0 < brace_depth (substring lit i (k + 1))" by auto
    then show ?thesis using extend[of e] step open_brace "1.prems" by simp
  next
    case close_end
    then have "m = substring lit i (j + 1)"
      using "1.prems"(1) jl by (subst (asm) scan_macro.simps) simp
    moreover have "brace_depth (substring lit i (j + 1)) = 0" using step close_end by simp
    ultimately show ?thesis using jl by (intro exI[of _ j]) simp
  next
    case close_go
    then have "scan_macro lit i (j + 1) (b - 1) = Some m"
      using "1.prems"(1) jl by (subst (asm) scan_macro.simps) simp
    from "1.IH"(2)[OF jl close_go(1) close_go(2) close_go(3) this] step close_go "1.prems"
    obtain e where "j + 1 \<le> e" "e < length lit" "m = substring lit i (e + 1)" "brace_depth m = 0"
      "\<forall>k. j + 1 \<le> k \<and> k < e \<longrightarrow> 0 < brace_depth (substring lit i (k + 1))" by auto
    then show ?thesis using extend[of e] step close_go "1.prems" by simp
  next
    case other
    then have "scan_macro lit i (j + 1) b = Some m"
      using "1.prems"(1) jl by (subst (asm) scan_macro.simps) simp
    from "1.IH"(3)[OF jl other(1) other(2) this] step other "1.prems"
    obtain e where "j + 1 \<le> e" "e < length lit" "m = substring lit i (e + 1)" "brace_depth m = 0"
      "\<forall>k. j + 1 \<le> k \<and> k < e \<longrightarrow> 0 < brace_depth (substring lit i (k + 1))" by auto
    then show ?thesis using extend[of e] step other "1.prems" by simp
  qed
qed

lemma scan_macro_None:
  assumes "scan_macro lit i j b = None" "i \<le> j" "b = brace_depth (substring lit i j)" "1 \<le> b"
  shows "\<forall>k. j \<le> k \<and> k < length lit \<longrightarrow> 0 < brace_depth (substring lit i (k + 1))"
  using assms
proof (induction lit i j b rule: scan_macro.induct)
  case (1 lit i j b)
  show ?case
  proof (cases "j < length lit")
    case False then show ?thesis by simp
  next
    case jl: True
    have step: "brace_depth (substring lit i (j + 1)) =
         b + (if lit ! j = CHR ''{'' then 1 else if lit ! j = CHR ''}'' then - 1 else 0)"
      using brace_depth_step[of i j lit] "1.prems" jl by simp
    have here: "0 < brace_depth (substring lit i (j + 1))"
      using step "1.prems" jl by (subst (asm) scan_macro.simps) (auto split: if_splits)
    have rest: "\<forall>k. j + 1 \<le> k \<and> k < length lit \<longrightarrow> 0 < brace_depth (substring lit i (k + 1))"
    proof -
      consider (open_brace) "lit ! j = CHR ''{''"
        | (close_go) "lit ! j \<noteq> CHR ''{''" "lit ! j = CHR ''}''" "b - 1 \<noteq> 0"
        | (other) "lit ! j \<noteq> CHR ''{''" "lit ! j \<noteq> CHR ''}''"
        using "1.prems"(1) jl by (subst (asm) scan_macro.simps) (auto split: if_splits)
      then show ?thesis
      proof cases
        case open_brace
        then have "scan_macro lit i (j + 1) (b + 1) = None"
          using "1.prems"(1) jl by (subst (asm) scan_macro.simps) simp
        from "1.IH"(1)[OF jl open_brace this] step open_brace "1.prems" show ?thesis by simp
      next
        case close_go
        then have "scan_macro lit i (j + 1) (b - 1) = None"
          using "1.prems"(1) jl by (subst (asm) scan_macro.simps) simp
        from "1.IH"(2)[OF jl close_go(1) close_go(2) close_go(3) this] step close_go "1.prems"
        show ?thesis by simp
      next
        case other
        then have "scan_macro lit i (j + 1) b = None"
          using "1.prems"(1) jl by (subst (asm) scan_macro.simps) simp
        from "1.IH"(3)[OF jl other(1) other(2) this] step other "1.prems" show ?thesis by simp
      qed
    qed
    show ?thesis
    proof (intro allI impI)
      fix k assume k: "j \<le> k \<and> k < length lit"
      show "0 < brace_depth (substring lit i (k + 1))"
      proof (cases "k = j")
        case True then show ?thesis using here by simp
      next
        case False then show ?thesis using rest k by simp
      qed
    qed
  qed
qed

lemma brace_depth_open:
  assumes "i < length lit" "lit ! i = CHR ''{''"
  shows "brace_depth (substring lit i (i + 1)) = 1"
  using assms substring_Suc[of i i lit] by (simp add: substring_def)

text \<open>In a literal without backslash the outer loop stops at the first opening brace.\<close>

lemma find_macro_first:
  assumes "j \<le> i" "i < length lit" "lit ! i = CHR ''{''"
    and "\<forall>k. j \<le> k \<and> k < i \<longrightarrow> lit ! k \<noteq> CHR ''{'' \<and> lit ! k \<noteq> backslash"
  shows "find_macro lit j = Some i"
  using assms
proof (induction "i - j" arbitrary: j)
  case 0
  then have "j = i" by simp
  then show ?case using "0.prems" by (subst find_macro.simps) (simp add: backslash_def)
next
  case (Suc d)
  then have lt: "j < i" by simp
  then have here: "lit ! j \<noteq> CHR ''{''" "lit ! j \<noteq> backslash" using Suc.prems by auto
  have "find_macro lit (j + 1) = Some i"
    using Suc.hyps(1)[of "j + 1"] Suc.hyps(2) Suc.prems lt by auto
  then show ?case using here lt Suc.prems by (subst find_macro.simps) simp
qed

text \<open>
  Claim C1. Let the literal of a text, code or code_block leaf be free of backslashes and
  have its first opening brace at index \<open>i\<close>. The scan that RenderText starts there
  returns a token exactly when the brace depth of some span that starts at \<open>i\<close> is
  zero, and the token is then the shortest such span: its depth is zero and the depth of
  every proper prefix is positive. When the depth never returns to zero before the literal
  ends, RenderText fails with UnterminatedMacro. A visit of the leaf rewrites one token, the
  one at \<open>i\<close>.
\<close>

theorem macro_scan_brace_depth:
  assumes "literal (ast st ! n) = lit" "event_node ev = n"
    and "backslash \<notin> set lit"
    and "i < length lit" "lit ! i = CHR ''{''" "\<forall>k<i. lit ! k \<noteq> CHR ''{''"
  shows "(\<forall>m. scan_macro lit i (i + 1) 1 = Some m \<longrightarrow>
            (\<exists>e. i < e \<and> e < length lit \<and> m = substring lit i (e + 1) \<and> brace_depth m = 0 \<and>
                 (\<forall>k. i \<le> k \<and> k < e \<longrightarrow> 0 < brace_depth (substring lit i (k + 1)))))
       \<and> ((\<exists>e. i < e \<and> e < length lit \<and> brace_depth (substring lit i (e + 1)) = 0) \<longrightarrow>
            (\<exists>m. scan_macro lit i (i + 1) 1 = Some m))
       \<and> ((\<forall>e. i < e \<and> e < length lit \<longrightarrow> brace_depth (substring lit i (e + 1)) \<noteq> 0) \<longrightarrow>
            RenderText st ev = Failed UnterminatedMacro st)
       \<and> RenderText st ev =
            (case rewrite_macro st n i of
               Failed e st1 \<Rightarrow> Failed e st1
             | Ok st1 \<Rightarrow>
                 Ok (st1\<lparr>ast := set_literal (ast st1) n
                                   (strip_backslashes (literal (ast st1 ! n)))\<rparr>))"
proof -
  have d1: "(1::int) = brace_depth (substring lit i (i + 1))"
    using brace_depth_open assms by simp
  have found: "find_macro lit 0 = Some i"
  proof (rule find_macro_first)
    show "\<forall>k. 0 \<le> k \<and> k < i \<longrightarrow> lit ! k \<noteq> CHR ''{'' \<and> lit ! k \<noteq> backslash"
      using assms by (auto simp: in_set_conv_nth)
  qed (use assms in auto)
  have A: "\<exists>e. i < e \<and> e < length lit \<and> m = substring lit i (e + 1) \<and> brace_depth m = 0 \<and>
             (\<forall>k. i \<le> k \<and> k < e \<longrightarrow> 0 < brace_depth (substring lit i (k + 1)))"
    if m: "scan_macro lit i (i + 1) 1 = Some m" for m
  proof -
    from scan_macro_Some[OF m _ d1]
    obtain e where e: "i + 1 \<le> e" "e < length lit" "m = substring lit i (e + 1)" "brace_depth m = 0"
      "\<forall>k. i + 1 \<le> k \<and> k < e \<longrightarrow> 0 < brace_depth (substring lit i (k + 1))" by auto
    have "\<forall>k. i \<le> k \<and> k < e \<longrightarrow> 0 < brace_depth (substring lit i (k + 1))"
    proof (intro allI impI)
      fix k assume k: "i \<le> k \<and> k < e"
      show "0 < brace_depth (substring lit i (k + 1))"
      proof (cases "k = i")
        case True then show ?thesis using d1 by simp
      next
        case False then show ?thesis using e(5) k by simp
      qed
    qed
    with e show ?thesis by (intro exI[of _ e]) simp
  qed
  have B: "\<forall>e. i < e \<and> e < length lit \<longrightarrow> 0 < brace_depth (substring lit i (e + 1))"
    if "scan_macro lit i (i + 1) 1 = None"
    using scan_macro_None[OF that _ d1] by simp
  have C: "\<exists>m. scan_macro lit i (i + 1) 1 = Some m"
    if "\<exists>e. i < e \<and> e < length lit \<and> brace_depth (substring lit i (e + 1)) = 0"
  proof (cases "scan_macro lit i (i + 1) 1")
    case None
    from B[OF None] that show ?thesis by fastforce
  next
    case (Some m) then show ?thesis by simp
  qed
  have R: "RenderText st ev =
            (case rewrite_macro st n i of
               Failed e st1 \<Rightarrow> Failed e st1
             | Ok st1 \<Rightarrow>
                 Ok (st1\<lparr>ast := set_literal (ast st1) n
                                   (strip_backslashes (literal (ast st1 ! n)))\<rparr>))"
    using assms(1,2) found by (simp add: RenderText_def)
  have D: "RenderText st ev = Failed UnterminatedMacro st"
    if never: "\<forall>e. i < e \<and> e < length lit \<longrightarrow> brace_depth (substring lit i (e + 1)) \<noteq> 0"
  proof -
    have "scan_macro lit i (i + 1) 1 = None"
    proof (cases "scan_macro lit i (i + 1) 1")
      case (Some m)
      from A[OF Some] never show ?thesis by auto
    qed simp
    then show ?thesis using R assms(1) by (simp add: rewrite_macro_def)
  qed
  from A C D R show ?thesis by blast
qed

text \<open>
  The theorem at the literals \<open>ab{@x{y}z}q\<close>, whose token is \<open>{@x{y}z}\<close>, and
  \<open>a{@x{y}\<close>, whose depth stays positive.
\<close>

lemma scan_closed: "scan_macro ''ab{@x{y}z}q'' 2 3 1 = Some ''{@x{y}z}''"
  by (simp add: scan_macro.simps substring_def)

theorem macro_scan_brace_depth_witness:
  "(\<exists>e. 2 < e \<and> e < length ''ab{@x{y}z}q'' \<and> ''{@x{y}z}'' = substring ''ab{@x{y}z}q'' 2 (e + 1)
         \<and> brace_depth ''{@x{y}z}'' = 0
         \<and> (\<forall>k. 2 \<le> k \<and> k < e \<longrightarrow> 0 < brace_depth (substring ''ab{@x{y}z}q'' 2 (k + 1))))
   \<and> RenderText (start_state (leaf_document Text ''ab{@x{y}z}q'')) (entering_event 2) =
       (case rewrite_macro (start_state (leaf_document Text ''ab{@x{y}z}q'')) 2 2 of
          Failed e st1 \<Rightarrow> Failed e st1
        | Ok st1 \<Rightarrow>
            Ok (st1\<lparr>ast := set_literal (ast st1) 2 (strip_backslashes (literal (ast st1 ! 2)))\<rparr>))
   \<and> RenderText (start_state (leaf_document Code ''a{@x{y}'')) (entering_event 2) =
       Failed UnterminatedMacro (start_state (leaf_document Code ''a{@x{y}''))"
proof -
  have h1: "literal (ast (start_state (leaf_document Text ''ab{@x{y}z}q'')) ! 2) = ''ab{@x{y}z}q''"
    "literal (ast (start_state (leaf_document Code ''a{@x{y}'')) ! 2) = ''a{@x{y}''"
    by (simp_all add: start_state_def leaf_document_def)
  have h2: "event_node (entering_event 2) = 2" by (simp add: entering_event_def)
  have h3: "backslash \<notin> set ''ab{@x{y}z}q''" "backslash \<notin> set ''a{@x{y}''"
    by (simp_all add: backslash_def)
  have h4: "\<forall>k<2. ''ab{@x{y}z}q'' ! k \<noteq> CHR ''{''" "\<forall>k<1. ''a{@x{y}'' ! k \<noteq> CHR ''{''"
    by (simp_all add: less_Suc_eq eval_nat_numeral)
  have never: "\<forall>e. 1 < e \<and> e < length ''a{@x{y}'' \<longrightarrow> brace_depth (substring ''a{@x{y}'' 1 (e + 1)) \<noteq> 0"
  proof (intro allI impI)
    fix e :: nat
    assume "1 < e \<and> e < length ''a{@x{y}''"
    then have "e = 2 \<or> e = 3 \<or> e = 4 \<or> e = 5 \<or> e = 6" by auto
    then show "brace_depth (substring ''a{@x{y}'' 1 (e + 1)) \<noteq> 0"
      by (elim disjE) (simp_all add: substring_def)
  qed
  note a = macro_scan_brace_depth[OF h1(1) h2 h3(1) _ _ h4(1)]
  note b = macro_scan_brace_depth[OF h1(2) h2 h3(2) _ _ h4(2)]
  have a1: "\<exists>e. 2 < e \<and> e < length ''ab{@x{y}z}q'' \<and> ''{@x{y}z}'' = substring ''ab{@x{y}z}q'' 2 (e + 1)
         \<and> brace_depth ''{@x{y}z}'' = 0
         \<and> (\<forall>k. 2 \<le> k \<and> k < e \<longrightarrow> 0 < brace_depth (substring ''ab{@x{y}z}q'' 2 (k + 1)))"
    using a scan_closed by simp
  have a2: "RenderText (start_state (leaf_document Text ''ab{@x{y}z}q'')) (entering_event 2) =
       (case rewrite_macro (start_state (leaf_document Text ''ab{@x{y}z}q'')) 2 2 of
          Failed e st1 \<Rightarrow> Failed e st1
        | Ok st1 \<Rightarrow>
            Ok (st1\<lparr>ast := set_literal (ast st1) 2 (strip_backslashes (literal (ast st1 ! 2)))\<rparr>))"
    using a by simp
  have b1: "RenderText (start_state (leaf_document Code ''a{@x{y}'')) (entering_event 2) =
       Failed UnterminatedMacro (start_state (leaf_document Code ''a{@x{y}''))"
    using b never by simp
  from a1 a2 b1 show ?thesis by blast
qed

subsection \<open>Field assignments, node by node\<close>

lemma length_set [simp]:
  "length (set_literal s n l) = length s"
  "length (set_parent s n v) = length s"
  "length (set_firstChild s n v) = length s"
  "length (set_lastChild s n v) = length s"
  "length (set_prev s n v) = length s"
  "length (set_next s n v) = length s"
  by (simp_all add: set_literal_def set_parent_def set_firstChild_def set_lastChild_def
      set_prev_def set_next_def)

lemma nth_set:
  "set_literal s n l ! k = (if k = n \<and> n < length s then (s ! n)\<lparr>literal := l\<rparr> else s ! k)"
  "set_parent s n v ! k = (if k = n \<and> n < length s then (s ! n)\<lparr>parent := v\<rparr> else s ! k)"
  "set_firstChild s n v ! k = (if k = n \<and> n < length s then (s ! n)\<lparr>firstChild := v\<rparr> else s ! k)"
  "set_lastChild s n v ! k = (if k = n \<and> n < length s then (s ! n)\<lparr>lastChild := v\<rparr> else s ! k)"
  "set_prev s n v ! k = (if k = n \<and> n < length s then (s ! n)\<lparr>prev := v\<rparr> else s ! k)"
  "set_next s n v ! k = (if k = n \<and> n < length s then (s ! n)\<lparr>next_sibling := v\<rparr> else s ! k)"
  by (auto simp: set_literal_def set_parent_def set_firstChild_def set_lastChild_def
      set_prev_def set_next_def list_update_beyond)

lemma length_unlink [simp]: "length (unlink s n) = length s"
  by (simp add: unlink_def Let_def split: option.splits)

lemma length_insertAfter: "insertAfter s n h = Some s' \<Longrightarrow> length s' = length s"
  by (auto simp: insertAfter_def Let_def split: option.splits)

lemma length_insertBefore: "insertBefore s n h = Some s' \<Longrightarrow> length s' = length s"
  by (auto simp: insertBefore_def Let_def split: option.splits)

lemma length_appendChild [simp]: "length (appendChild s n c) = length s"
  by (simp add: appendChild_def Let_def split: option.splits)

text \<open>The tree operations leave type, literal and destination of every node alone.\<close>

lemma content_set [simp]:
  "content (set_parent s n v ! k) = content (s ! k)"
  "content (set_firstChild s n v ! k) = content (s ! k)"
  "content (set_lastChild s n v ! k) = content (s ! k)"
  "content (set_prev s n v ! k) = content (s ! k)"
  "content (set_next s n v ! k) = content (s ! k)"
  by (simp_all add: nth_set content_def)

lemma content_unlink [simp]: "content (unlink s n ! k) = content (s ! k)"
  by (simp add: unlink_def Let_def split: option.splits)

lemma content_insertAfter: "insertAfter s n h = Some s' \<Longrightarrow> content (s' ! k) = content (s ! k)"
  by (auto simp: insertAfter_def Let_def split: option.splits)

lemma content_insertBefore: "insertBefore s n h = Some s' \<Longrightarrow> content (s' ! k) = content (s ! k)"
  by (auto simp: insertBefore_def Let_def split: option.splits)

lemma content_appendChild [simp]: "content (appendChild s n c ! k) = content (s ! k)"
  by (simp add: appendChild_def Let_def split: option.splits)

subsection \<open>Sibling lists\<close>

lemma siblings_in_range: "siblings s p b xs a \<Longrightarrow> x \<in> set xs \<Longrightarrow> x < length s"
  by (induction xs arbitrary: b) auto

lemma siblings_parent: "siblings s p b xs a \<Longrightarrow> x \<in> set xs \<Longrightarrow> parent (s ! x) = Some p"
  by (induction xs arbitrary: b) auto

lemma siblings_cong:
  assumes "siblings s p b xs a" "length s \<le> length s'"
    and "\<forall>z\<in>set xs. parent (s' ! z) = parent (s ! z) \<and> prev (s' ! z) = prev (s ! z) \<and>
                     next_sibling (s' ! z) = next_sibling (s ! z)"
  shows "siblings s' p b xs a"
  using assms by (induction xs arbitrary: b) auto

lemma siblings_append:
  "siblings s p b (xs @ ys) a =
     (siblings s p b xs (case ys of [] \<Rightarrow> a | y # zs \<Rightarrow> Some y) \<and>
      siblings s p (if xs = [] then b else Some (last xs)) ys a)"
proof (induction xs arbitrary: b)
  case Nil
  then show ?case by simp
next
  case (Cons x xs)
  show ?case
  proof (cases xs)
    case Nil
    then show ?thesis by (cases ys) auto
  next
    case (Cons x' xs')
    then show ?thesis using Cons.IH[of "Some x"] by auto
  qed
qed

lemma siblings_new_after:
  assumes "siblings s p b xs a" "distinct xs" "length s \<le> length s'"
    and "\<forall>z\<in>set xs. parent (s' ! z) = parent (s ! z) \<and> prev (s' ! z) = prev (s ! z) \<and>
            next_sibling (s' ! z) = (if z = last xs then a' else next_sibling (s ! z))"
  shows "siblings s' p b xs a'"
  using assms
proof (induction xs arbitrary: b)
  case Nil
  then show ?case by simp
next
  case (Cons x xs)
  show ?case
  proof (cases xs)
    case Nil
    then show ?thesis using Cons.prems by auto
  next
    case (Cons x' xs')
    then have "x \<noteq> last xs" using Cons.prems(2) last_in_set[of xs] by auto
    moreover have "siblings s' p (Some x) xs a'"
      using Cons.IH[of "Some x"] Cons.prems Cons by auto
    ultimately show ?thesis using Cons.prems Cons by auto
  qed
qed

lemma siblings_new_before:
  assumes "siblings s p b xs a" "distinct xs" "length s \<le> length s'"
    and "\<forall>z\<in>set xs. parent (s' ! z) = parent (s ! z) \<and>
            next_sibling (s' ! z) = next_sibling (s ! z) \<and>
            prev (s' ! z) = (if z = hd xs then b' else prev (s ! z))"
  shows "siblings s' p b' xs a"
proof (cases xs)
  case Nil
  then show ?thesis by simp
next
  case (Cons x xs')
  have "siblings s' p (Some x) xs' a"
  proof (rule siblings_cong)
    show "siblings s p (Some x) xs' a" using assms(1) Cons by simp
    show "\<forall>z\<in>set xs'. parent (s' ! z) = parent (s ! z) \<and> prev (s' ! z) = prev (s ! z) \<and>
                     next_sibling (s' ! z) = next_sibling (s ! z)"
      using assms(2,4) Cons by auto
  qed (rule assms(3))
  then show ?thesis using assms Cons by auto
qed

lemma children_split:
  assumes "children_are s p (xs @ n # ys)"
  shows "p < length s" "n < length s" "parent (s ! n) = Some p"
    "prev (s ! n) = (if xs = [] then None else Some (last xs))"
    "next_sibling (s ! n) = (case ys of [] \<Rightarrow> None | y # zs \<Rightarrow> Some y)"
    "siblings s p None xs (Some n)" "siblings s p (Some n) ys None"
    "distinct (xs @ n # ys)" "p \<notin> set (xs @ n # ys)"
    "\<forall>x\<in>set (xs @ n # ys). x < length s"
    "firstChild (s ! p) = Some (hd (xs @ [n]))" "lastChild (s ! p) = Some (last (n # ys))"
proof -
  have sib: "siblings s p None (xs @ n # ys) None" and d: "distinct (xs @ n # ys)"
    and p: "p < length s" "p \<notin> set (xs @ n # ys)"
    and fc: "firstChild (s ! p) = (case xs @ n # ys of [] \<Rightarrow> None | x # zs \<Rightarrow> Some x)"
    and lc: "lastChild (s ! p) = Some (last (xs @ n # ys))"
    using assms by (auto simp: children_are_def)
  from sib have a: "siblings s p None xs (Some n)"
    and b: "siblings s p (if xs = [] then None else Some (last xs)) (n # ys) None"
    by (simp_all add: siblings_append)
  show "p < length s" "p \<notin> set (xs @ n # ys)" "distinct (xs @ n # ys)" by fact+
  show "siblings s p None xs (Some n)" by fact
  from b show "n < length s" "parent (s ! n) = Some p"
    "prev (s ! n) = (if xs = [] then None else Some (last xs))"
    "next_sibling (s ! n) = (case ys of [] \<Rightarrow> None | y # zs \<Rightarrow> Some y)"
    "siblings s p (Some n) ys None" by auto
  show "\<forall>x\<in>set (xs @ n # ys). x < length s" using sib siblings_in_range by blast
  show "firstChild (s ! p) = Some (hd (xs @ [n]))" using fc by (cases xs) auto
  show "lastChild (s ! p) = Some (last (n # ys))" using lc by simp
qed

lemma children_join:
  assumes "p < length s" "distinct (xs @ ys)" "p \<notin> set (xs @ ys)"
    and "siblings s p None xs (case ys of [] \<Rightarrow> None | y # zs \<Rightarrow> Some y)"
    and "siblings s p (if xs = [] then None else Some (last xs)) ys None"
    and "firstChild (s ! p) = (case xs @ ys of [] \<Rightarrow> None | x # zs \<Rightarrow> Some x)"
    and "lastChild (s ! p) = (if xs @ ys = [] then None else Some (last (xs @ ys)))"
  shows "children_are s p (xs @ ys)"
  using assms unfolding children_are_def by (simp add: siblings_append)

subsection \<open>What the tree operations do, node by node\<close>

lemma node_update_same:
  "parent r = v \<Longrightarrow> r\<lparr>parent := v\<rparr> = r"
  "prev r = v' \<Longrightarrow> r\<lparr>prev := v'\<rparr> = r"
  "next_sibling r = v'' \<Longrightarrow> r\<lparr>next_sibling := v''\<rparr> = r"
  by (cases r; simp)+

lemma unlink_detached:
  assumes "detached s h"
  shows "unlink s h = s"
proof (cases "h < length s")
  case True
  then show ?thesis
    using assms
    by (simp add: detached_def unlink_def set_parent_def set_next_def set_prev_def
        node_update_same)
next
  case False
  then show ?thesis
    using assms
    by (simp add: detached_def unlink_def set_parent_def set_next_def set_prev_def
        list_update_beyond)
qed

lemma unlink_nth:
  assumes "n < length s"
    and "\<forall>x. prev (s ! n) = Some x \<longrightarrow> x < length s \<and> x \<noteq> n"
    and "\<forall>y. next_sibling (s ! n) = Some y \<longrightarrow> y < length s \<and> y \<noteq> n"
    and "\<forall>q. parent (s ! n) = Some q \<longrightarrow> q < length s \<and> q \<noteq> n"
  shows "unlink s n ! k =
     (if k = n then (s ! n)\<lparr>parent := None, next_sibling := None, prev := None\<rparr>
      else (let r = (if prev (s ! n) = Some k then (s ! k)\<lparr>next_sibling := next_sibling (s ! n)\<rparr>
                     else if prev (s ! n) = None \<and> parent (s ! n) = Some k
                     then (s ! k)\<lparr>firstChild := next_sibling (s ! n)\<rparr>
                     else s ! k)
            in if next_sibling (s ! n) = Some k then r\<lparr>prev := prev (s ! n)\<rparr>
               else if next_sibling (s ! n) = None \<and> parent (s ! n) = Some k
               then r\<lparr>lastChild := prev (s ! n)\<rparr>
               else r))"
  using assms
  by (cases "prev (s ! n)"; cases "next_sibling (s ! n)"; cases "parent (s ! n)")
     (auto simp: unlink_def Let_def nth_set)

lemma insertAfter_nth:
  assumes "n < length s" "h < length s" "h \<noteq> n" "detached s h"
    and "\<forall>y. next_sibling (s ! n) = Some y \<longrightarrow> y < length s \<and> y \<noteq> h \<and> y \<noteq> n"
    and "\<forall>q. parent (s ! n) = Some q \<longrightarrow> q < length s \<and> q \<noteq> h \<and> q \<noteq> n"
    and "next_sibling (s ! n) = None \<longrightarrow> parent (s ! n) \<noteq> None"
  shows "\<exists>s'. insertAfter s n h = Some s' \<and> length s' = length s \<and>
     (\<forall>k. s' ! k =
        (if k = h then (s ! h)\<lparr>next_sibling := next_sibling (s ! n), prev := Some n,
                               parent := parent (s ! n)\<rparr>
         else if k = n then (s ! n)\<lparr>next_sibling := Some h\<rparr>
         else if next_sibling (s ! n) = Some k then (s ! k)\<lparr>prev := Some h\<rparr>
         else if next_sibling (s ! n) = None \<and> parent (s ! n) = Some k
         then (s ! k)\<lparr>lastChild := Some h\<rparr>
         else s ! k))"
  using assms
  by (cases "next_sibling (s ! n)"; cases "parent (s ! n)")
     (auto simp: insertAfter_def unlink_detached Let_def nth_set)

lemma insertBefore_nth:
  assumes "n < length s" "h < length s" "h \<noteq> n" "detached s h"
    and "\<forall>x. prev (s ! n) = Some x \<longrightarrow> x < length s \<and> x \<noteq> h \<and> x \<noteq> n"
    and "\<forall>q. parent (s ! n) = Some q \<longrightarrow> q < length s \<and> q \<noteq> h \<and> q \<noteq> n"
    and "prev (s ! n) = None \<longrightarrow> parent (s ! n) \<noteq> None"
  shows "\<exists>s'. insertBefore s n h = Some s' \<and> length s' = length s \<and>
     (\<forall>k. s' ! k =
        (if k = h then (s ! h)\<lparr>prev := prev (s ! n), next_sibling := Some n,
                               parent := parent (s ! n)\<rparr>
         else if k = n then (s ! n)\<lparr>prev := Some h\<rparr>
         else if prev (s ! n) = Some k then (s ! k)\<lparr>next_sibling := Some h\<rparr>
         else if prev (s ! n) = None \<and> parent (s ! n) = Some k
         then (s ! k)\<lparr>firstChild := Some h\<rparr>
         else s ! k))"
  using assms
  by (cases "prev (s ! n)"; cases "parent (s ! n)")
     (auto simp: insertBefore_def unlink_detached Let_def nth_set)

lemma appendChild_nth:
  assumes "n < length s" "c < length s" "c \<noteq> n" "detached s c"
    and "\<forall>l. lastChild (s ! n) = Some l \<longrightarrow> l < length s \<and> l \<noteq> c \<and> l \<noteq> n"
  shows "appendChild s n c ! k =
     (if k = c then (s ! c)\<lparr>parent := Some n, prev := lastChild (s ! n)\<rparr>
      else if k = n
      then (s ! n)\<lparr>lastChild := Some c,
                    firstChild := (if lastChild (s ! n) = None then Some c
                                   else firstChild (s ! n))\<rparr>
      else if lastChild (s ! n) = Some k then (s ! k)\<lparr>next_sibling := Some c\<rparr>
      else s ! k)"
  using assms
  by (cases "lastChild (s ! n)")
     (auto simp: appendChild_def unlink_detached Let_def nth_set detached_def node_update_same)

subsection \<open>The tree operations on the children of a node\<close>

lemma children_are_cong:
  assumes "children_are s p xs" "length s \<le> length s'"
    and "\<forall>z\<in>set xs. parent (s' ! z) = parent (s ! z) \<and> prev (s' ! z) = prev (s ! z) \<and>
                     next_sibling (s' ! z) = next_sibling (s ! z)"
    and "firstChild (s' ! p) = firstChild (s ! p)" "lastChild (s' ! p) = lastChild (s ! p)"
  shows "children_are s' p xs"
  using assms siblings_cong[of s p None xs None s'] by (auto simp: children_are_def)

lemma children_in_range: "children_are s p xs \<Longrightarrow> x \<in> set xs \<Longrightarrow> x < length s"
  by (auto simp: children_are_def dest: siblings_in_range)

lemma children_alloc:
  assumes "children_are s p xs"
  shows "children_are (alloc s nd) p xs"
proof (rule children_are_cong[OF assms])
  have "p < length s" using assms by (simp add: children_are_def)
  then show "firstChild (alloc s nd ! p) = firstChild (s ! p)"
    "lastChild (alloc s nd ! p) = lastChild (s ! p)"
    by (simp_all add: alloc_def nth_append)
  show "\<forall>z\<in>set xs. parent (alloc s nd ! z) = parent (s ! z) \<and>
          prev (alloc s nd ! z) = prev (s ! z) \<and>
          next_sibling (alloc s nd ! z) = next_sibling (s ! z)"
    using children_in_range[OF assms] by (simp add: alloc_def nth_append)
qed (simp add: alloc_def)

lemma children_set_literal:
  assumes "children_are s p xs"
  shows "children_are (set_literal s n l) p xs"
  by (rule children_are_cong[OF assms]) (simp_all add: nth_set)

lemma alloc_new:
  "length (alloc s (new_node t l)) = Suc (length s)"
  "detached (alloc s (new_node t l)) (length s)"
  "ntype (alloc s (new_node t l) ! length s) = t"
  "literal (alloc s (new_node t l) ! length s) = l"
  "k < length s \<Longrightarrow> alloc s (new_node t l) ! k = s ! k"
  by (simp_all add: alloc_def new_node_def detached_def nth_append)

lemma children_unlink:
  assumes "children_are s p (xs @ n # ys)"
  shows "children_are (unlink s n) p (xs @ ys)"
proof -
  note f = children_split[OF assms]
  have lastxs: "xs \<noteq> [] \<longrightarrow> last xs \<in> set xs \<and> last xs \<notin> set ys \<and> last xs \<noteq> n \<and> last xs \<noteq> p"
  proof
    assume "xs \<noteq> []"
    then obtain x where x: "x = last xs" "x \<in> set xs" by simp
    from x(2) f(8,9) have "x \<in> set xs \<and> x \<notin> set ys \<and> x \<noteq> n \<and> x \<noteq> p" by auto
    then show "last xs \<in> set xs \<and> last xs \<notin> set ys \<and> last xs \<noteq> n \<and> last xs \<noteq> p"
      using x(1) by simp
  qed
  have nth: "unlink s n ! k =
     (if k = n then (s ! n)\<lparr>parent := None, next_sibling := None, prev := None\<rparr>
      else (let r = (if prev (s ! n) = Some k then (s ! k)\<lparr>next_sibling := next_sibling (s ! n)\<rparr>
                     else if prev (s ! n) = None \<and> parent (s ! n) = Some k
                     then (s ! k)\<lparr>firstChild := next_sibling (s ! n)\<rparr>
                     else s ! k)
            in if next_sibling (s ! n) = Some k then r\<lparr>prev := prev (s ! n)\<rparr>
               else if next_sibling (s ! n) = None \<and> parent (s ! n) = Some k
               then r\<lparr>lastChild := prev (s ! n)\<rparr>
               else r))" for k
  proof (rule unlink_nth)
    show "\<forall>x. prev (s ! n) = Some x \<longrightarrow> x < length s \<and> x \<noteq> n"
      using f(4,8,10) lastxs by (auto split: if_splits)
    show "\<forall>y. next_sibling (s ! n) = Some y \<longrightarrow> y < length s \<and> y \<noteq> n"
      using f(5,8,10) by (auto split: list.splits)
    show "\<forall>q. parent (s ! n) = Some q \<longrightarrow> q < length s \<and> q \<noteq> n"
      using f(1,3,9) by auto
  qed (rule f(2))
  show ?thesis
  proof (rule children_join)
    show "p < length (unlink s n)" using f(1) by simp
    show "distinct (xs @ ys)" "p \<notin> set (xs @ ys)" using f(8,9) by auto
    show "siblings (unlink s n) p None xs (case ys of [] \<Rightarrow> None | y # zs \<Rightarrow> Some y)"
    proof (rule siblings_new_after[OF f(6)])
      show "distinct xs" using f(8) by simp
      show "\<forall>z\<in>set xs. parent (unlink s n ! z) = parent (s ! z) \<and>
              prev (unlink s n ! z) = prev (s ! z) \<and>
              next_sibling (unlink s n ! z) =
                (if z = last xs then case ys of [] \<Rightarrow> None | y # zs \<Rightarrow> Some y
                 else next_sibling (s ! z))"
        using f(3,4,5,8,9) by (auto simp: nth Let_def split: list.splits)
    qed simp
    show "siblings (unlink s n) p (if xs = [] then None else Some (last xs)) ys None"
    proof (rule siblings_new_before[OF f(7)])
      show "distinct ys" using f(8) by simp
      show "\<forall>z\<in>set ys. parent (unlink s n ! z) = parent (s ! z) \<and>
              next_sibling (unlink s n ! z) = next_sibling (s ! z) \<and>
              prev (unlink s n ! z) =
                (if z = hd ys then if xs = [] then None else Some (last xs) else prev (s ! z))"
        using f(3,4,5,8,9) lastxs by (auto simp: nth Let_def split: list.splits)
    qed simp
    show "firstChild (unlink s n ! p) = (case xs @ ys of [] \<Rightarrow> None | x # zs \<Rightarrow> Some x)"
      using f(3,4,5,8,9,11) lastxs by (cases xs) (auto simp: nth Let_def split: list.splits)
    show "lastChild (unlink s n ! p) = (if xs @ ys = [] then None else Some (last (xs @ ys)))"
      using f(3,4,5,8,9,12) lastxs by (cases ys) (auto simp: nth Let_def split: list.splits)
  qed
qed

lemma children_prefix:
  assumes "children_are s p (xs @ n # ys)"
  shows "siblings s p None (xs @ [n]) (case ys of [] \<Rightarrow> None | y # zs \<Rightarrow> Some y)"
  using children_split(2,3,4,5,6)[OF assms] by (simp add: siblings_append)

lemma family_facts:
  assumes "children_are s p (xs @ n # ys)"
  shows "xs \<noteq> [] \<longrightarrow> last xs \<in> set xs \<and> last xs \<notin> set ys \<and> last xs \<noteq> n \<and> last xs \<noteq> p
           \<and> last xs < length s"
    and "ys \<noteq> [] \<longrightarrow> hd ys \<in> set ys \<and> hd ys \<notin> set xs \<and> hd ys \<noteq> n \<and> hd ys \<noteq> p
           \<and> hd ys < length s"
proof -
  note f = children_split[OF assms]
  show "xs \<noteq> [] \<longrightarrow> last xs \<in> set xs \<and> last xs \<notin> set ys \<and> last xs \<noteq> n \<and> last xs \<noteq> p
           \<and> last xs < length s"
  proof
    assume "xs \<noteq> []"
    then obtain x where x: "x = last xs" "x \<in> set xs" by simp
    from x(2) f(8,9,10) have "x \<in> set xs \<and> x \<notin> set ys \<and> x \<noteq> n \<and> x \<noteq> p \<and> x < length s"
      by auto
    then show "last xs \<in> set xs \<and> last xs \<notin> set ys \<and> last xs \<noteq> n \<and> last xs \<noteq> p
           \<and> last xs < length s"
      using x(1) by simp
  qed
  show "ys \<noteq> [] \<longrightarrow> hd ys \<in> set ys \<and> hd ys \<notin> set xs \<and> hd ys \<noteq> n \<and> hd ys \<noteq> p
           \<and> hd ys < length s"
  proof
    assume "ys \<noteq> []"
    then obtain y where y: "y = hd ys" "y \<in> set ys" by simp
    from y(2) f(8,9,10) have "y \<in> set ys \<and> y \<notin> set xs \<and> y \<noteq> n \<and> y \<noteq> p \<and> y < length s"
      by auto
    then show "hd ys \<in> set ys \<and> hd ys \<notin> set xs \<and> hd ys \<noteq> n \<and> hd ys \<noteq> p
           \<and> hd ys < length s"
      using y(1) by simp
  qed
qed

lemma children_insertAfter:
  assumes c: "children_are s p (xs @ n # ys)"
    and h: "h < length s" "detached s h" "h \<notin> set (xs @ n # ys)" "h \<noteq> p"
  shows "\<exists>s'. insertAfter s n h = Some s' \<and> length s' = length s \<and>
           children_are s' p (xs @ n # h # ys) \<and>
           (\<forall>k. k \<notin> insert p (insert h (set (xs @ n # ys))) \<longrightarrow> s' ! k = s ! k)"
proof -
  note f = children_split[OF c]
  note g = family_facts[OF c]
  have "\<exists>s'. insertAfter s n h = Some s' \<and> length s' = length s \<and>
     (\<forall>k. s' ! k =
        (if k = h then (s ! h)\<lparr>next_sibling := next_sibling (s ! n), prev := Some n,
                               parent := parent (s ! n)\<rparr>
         else if k = n then (s ! n)\<lparr>next_sibling := Some h\<rparr>
         else if next_sibling (s ! n) = Some k then (s ! k)\<lparr>prev := Some h\<rparr>
         else if next_sibling (s ! n) = None \<and> parent (s ! n) = Some k
         then (s ! k)\<lparr>lastChild := Some h\<rparr>
         else s ! k))"
  proof (rule insertAfter_nth)
    show "h \<noteq> n" using h(3) by auto
    show "\<forall>y. next_sibling (s ! n) = Some y \<longrightarrow> y < length s \<and> y \<noteq> h \<and> y \<noteq> n"
      using f(5) g(2) h(3) by (auto split: list.splits)
    show "\<forall>q. parent (s ! n) = Some q \<longrightarrow> q < length s \<and> q \<noteq> h \<and> q \<noteq> n"
      using f(1,3,9) h(4) by auto
    show "next_sibling (s ! n) = None \<longrightarrow> parent (s ! n) \<noteq> None" using f(3) by simp
  qed (use f(2) h in auto)
  then obtain s' where s': "insertAfter s n h = Some s'" "length s' = length s"
    and nth: "\<And>k. s' ! k =
        (if k = h then (s ! h)\<lparr>next_sibling := next_sibling (s ! n), prev := Some n,
                               parent := parent (s ! n)\<rparr>
         else if k = n then (s ! n)\<lparr>next_sibling := Some h\<rparr>
         else if next_sibling (s ! n) = Some k then (s ! k)\<lparr>prev := Some h\<rparr>
         else if next_sibling (s ! n) = None \<and> parent (s ! n) = Some k
         then (s ! k)\<lparr>lastChild := Some h\<rparr>
         else s ! k)" by blast
  have "children_are s' p ((xs @ [n]) @ (h # ys))"
  proof (rule children_join)
    show "p < length s'" using f(1) s'(2) by simp
    show "distinct ((xs @ [n]) @ h # ys)" "p \<notin> set ((xs @ [n]) @ h # ys)"
      using f(8,9) h(3,4) by auto
    show "siblings s' p None (xs @ [n]) (case h # ys of [] \<Rightarrow> None | y # zs \<Rightarrow> Some y)"
    proof (simp, rule siblings_new_after[OF children_prefix[OF c]])
      show "distinct (xs @ [n])" using f(8) by simp
      show "\<forall>z\<in>set (xs @ [n]). parent (s' ! z) = parent (s ! z) \<and>
              prev (s' ! z) = prev (s ! z) \<and>
              next_sibling (s' ! z) =
                (if z = last (xs @ [n]) then Some h else next_sibling (s ! z))"
        using f(3,5,8,9) g(2) h(3) by (auto simp: nth split: list.splits)
    qed (simp add: s'(2))
    have "siblings s' p (Some h) ys None"
    proof (rule siblings_new_before[OF f(7)])
      show "distinct ys" using f(8) by simp
      show "\<forall>z\<in>set ys. parent (s' ! z) = parent (s ! z) \<and>
              next_sibling (s' ! z) = next_sibling (s ! z) \<and>
              prev (s' ! z) = (if z = hd ys then Some h else prev (s ! z))"
        using f(3,5,8,9) h(3) by (auto simp: nth split: list.splits)
    qed (simp add: s'(2))
    then show "siblings s' p (if xs @ [n] = [] then None else Some (last (xs @ [n]))) (h # ys) None"
      using f(3,5) h(1) s'(2) by (simp add: nth)
    show "firstChild (s' ! p) = (case (xs @ [n]) @ h # ys of [] \<Rightarrow> None | x # zs \<Rightarrow> Some x)"
      using f(3,5,9,11) g(2) h(4) by (cases xs) (auto simp: nth split: list.splits)
    show "lastChild (s' ! p) =
            (if (xs @ [n]) @ h # ys = [] then None else Some (last ((xs @ [n]) @ h # ys)))"
      using f(3,5,9,12) g(2) h(4) by (cases ys) (auto simp: nth split: list.splits)
  qed
  moreover have "\<forall>k. k \<notin> insert p (insert h (set (xs @ n # ys))) \<longrightarrow> s' ! k = s ! k"
    using f(3,5) by (auto simp: nth split: list.splits)
  ultimately show ?thesis using s' by simp
qed

lemma children_insertBefore:
  assumes c: "children_are s p (xs @ n # ys)"
    and h: "h < length s" "detached s h" "h \<notin> set (xs @ n # ys)" "h \<noteq> p"
  shows "\<exists>s'. insertBefore s n h = Some s' \<and> length s' = length s \<and>
           children_are s' p (xs @ h # n # ys) \<and>
           (\<forall>k. k \<notin> insert p (insert h (set (xs @ n # ys))) \<longrightarrow> s' ! k = s ! k)"
proof -
  note f = children_split[OF c]
  note g = family_facts[OF c]
  have "\<exists>s'. insertBefore s n h = Some s' \<and> length s' = length s \<and>
     (\<forall>k. s' ! k =
        (if k = h then (s ! h)\<lparr>prev := prev (s ! n), next_sibling := Some n,
                               parent := parent (s ! n)\<rparr>
         else if k = n then (s ! n)\<lparr>prev := Some h\<rparr>
         else if prev (s ! n) = Some k then (s ! k)\<lparr>next_sibling := Some h\<rparr>
         else if prev (s ! n) = None \<and> parent (s ! n) = Some k
         then (s ! k)\<lparr>firstChild := Some h\<rparr>
         else s ! k))"
  proof (rule insertBefore_nth)
    show "h \<noteq> n" using h(3) by auto
    show "\<forall>x. prev (s ! n) = Some x \<longrightarrow> x < length s \<and> x \<noteq> h \<and> x \<noteq> n"
      using f(4) g(1) h(3) by (auto split: if_splits)
    show "\<forall>q. parent (s ! n) = Some q \<longrightarrow> q < length s \<and> q \<noteq> h \<and> q \<noteq> n"
      using f(1,3,9) h(4) by auto
    show "prev (s ! n) = None \<longrightarrow> parent (s ! n) \<noteq> None" using f(3) by simp
  qed (use f(2) h in auto)
  then obtain s' where s': "insertBefore s n h = Some s'" "length s' = length s"
    and nth: "\<And>k. s' ! k =
        (if k = h then (s ! h)\<lparr>prev := prev (s ! n), next_sibling := Some n,
                               parent := parent (s ! n)\<rparr>
         else if k = n then (s ! n)\<lparr>prev := Some h\<rparr>
         else if prev (s ! n) = Some k then (s ! k)\<lparr>next_sibling := Some h\<rparr>
         else if prev (s ! n) = None \<and> parent (s ! n) = Some k
         then (s ! k)\<lparr>firstChild := Some h\<rparr>
         else s ! k)" by blast
  have "children_are s' p (xs @ (h # n # ys))"
  proof (rule children_join)
    show "p < length s'" using f(1) s'(2) by simp
    show "distinct (xs @ h # n # ys)" "p \<notin> set (xs @ h # n # ys)"
      using f(8,9) h(3,4) by auto
    show "siblings s' p None xs (case h # n # ys of [] \<Rightarrow> None | y # zs \<Rightarrow> Some y)"
    proof (simp, rule siblings_new_after[OF f(6)])
      show "distinct xs" using f(8) by simp
      show "\<forall>z\<in>set xs. parent (s' ! z) = parent (s ! z) \<and>
              prev (s' ! z) = prev (s ! z) \<and>
              next_sibling (s' ! z) = (if z = last xs then Some h else next_sibling (s ! z))"
        using f(3,4,8,9) g(1) h(3) by (auto simp: nth)
    qed (simp add: s'(2))
    have "siblings s' p (Some h) (n # ys) None"
    proof (rule siblings_new_before[where b = "if xs = [] then None else Some (last xs)"])
      show "siblings s p (if xs = [] then None else Some (last xs)) (n # ys) None"
        using f(2,3,4,5,7) by simp
      show "distinct (n # ys)" using f(8) by simp
      show "\<forall>z\<in>set (n # ys). parent (s' ! z) = parent (s ! z) \<and>
              next_sibling (s' ! z) = next_sibling (s ! z) \<and>
              prev (s' ! z) = (if z = hd (n # ys) then Some h else prev (s ! z))"
        using f(3,4,8,9) g(1) h(3) by (auto simp: nth)
    qed (simp add: s'(2))
    then show "siblings s' p (if xs = [] then None else Some (last xs)) (h # n # ys) None"
      using f(3,4) h(1) s'(2) by (simp add: nth)
    show "firstChild (s' ! p) = (case xs @ h # n # ys of [] \<Rightarrow> None | x # zs \<Rightarrow> Some x)"
      using f(3,4,9,11) g(1) h(4) by (cases xs) (auto simp: nth)
    show "lastChild (s' ! p) =
            (if xs @ h # n # ys = [] then None else Some (last (xs @ h # n # ys)))"
      using f(3,4,9,12) g(1) h(4) by (auto simp: nth)
  qed
  moreover have "\<forall>k. k \<notin> insert p (insert h (set (xs @ n # ys))) \<longrightarrow> s' ! k = s ! k"
    using f(3,4) g(1) by (auto simp: nth)
  ultimately show ?thesis using s' by simp
qed

lemma unlink_nth_child:
  assumes "children_are s p (xs @ n # ys)"
  shows "unlink s n ! k =
     (if k = n then (s ! n)\<lparr>parent := None, next_sibling := None, prev := None\<rparr>
      else (let r = (if prev (s ! n) = Some k then (s ! k)\<lparr>next_sibling := next_sibling (s ! n)\<rparr>
                     else if prev (s ! n) = None \<and> parent (s ! n) = Some k
                     then (s ! k)\<lparr>firstChild := next_sibling (s ! n)\<rparr>
                     else s ! k)
            in if next_sibling (s ! n) = Some k then r\<lparr>prev := prev (s ! n)\<rparr>
               else if next_sibling (s ! n) = None \<and> parent (s ! n) = Some k
               then r\<lparr>lastChild := prev (s ! n)\<rparr>
               else r))"
proof (rule unlink_nth)
  note f = children_split[OF assms]
  note g = family_facts[OF assms]
  show "n < length s" by (rule f(2))
  show "\<forall>x. prev (s ! n) = Some x \<longrightarrow> x < length s \<and> x \<noteq> n"
    using f(4) g(1) by (auto split: if_splits)
  show "\<forall>y. next_sibling (s ! n) = Some y \<longrightarrow> y < length s \<and> y \<noteq> n"
    using f(5) g(2) by (auto split: list.splits)
  show "\<forall>q. parent (s ! n) = Some q \<longrightarrow> q < length s \<and> q \<noteq> n"
    using f(1,3,9) by auto
qed

lemma detached_unlink:
  assumes "children_are s p (xs @ n # ys)"
  shows "detached (unlink s n) n"
  by (simp add: unlink_nth_child[OF assms] detached_def)

lemma children_unlink_other:
  assumes c: "children_are s p (xs @ n # ys)" and o: "children_are s q zs"
    and d: "q \<noteq> p" "q \<notin> set (xs @ n # ys)" "set zs \<inter> set (xs @ n # ys) = {}"
  shows "children_are (unlink s n) q zs"
proof (rule children_are_cong[OF o])
  note f = children_split[OF c]
  note g = family_facts[OF c]
  show "\<forall>z\<in>set zs. parent (unlink s n ! z) = parent (s ! z) \<and>
          prev (unlink s n ! z) = prev (s ! z) \<and>
          next_sibling (unlink s n ! z) = next_sibling (s ! z)"
    using f(3,4,5) g d(3) by (auto simp: unlink_nth_child[OF c] Let_def split: list.splits)
  show "firstChild (unlink s n ! q) = firstChild (s ! q)"
    "lastChild (unlink s n ! q) = lastChild (s ! q)"
    using f(3,4,5) g d(1,2) by (auto simp: unlink_nth_child[OF c] Let_def split: list.splits)
qed simp

lemma children_appendChild:
  assumes c: "children_are s p xs"
    and h: "h < length s" "detached s h" "h \<notin> set xs" "h \<noteq> p"
  shows "children_are (appendChild s p h) p (xs @ [h])"
proof -
  have p: "p < length s" and d: "distinct xs" "p \<notin> set xs"
    and fc: "firstChild (s ! p) = (case xs of [] \<Rightarrow> None | x # ys \<Rightarrow> Some x)"
    and lc: "lastChild (s ! p) = (if xs = [] then None else Some (last xs))"
    and sib: "siblings s p None xs None"
    using c by (auto simp: children_are_def)
  have l: "xs \<noteq> [] \<longrightarrow> last xs \<in> set xs \<and> last xs \<noteq> h \<and> last xs \<noteq> p \<and> last xs < length s"
  proof
    assume "xs \<noteq> []"
    then obtain x where x: "x = last xs" "x \<in> set xs" by simp
    from x(2) d h(3) children_in_range[OF c] have "x \<in> set xs \<and> x \<noteq> h \<and> x \<noteq> p \<and> x < length s"
      by auto
    then show "last xs \<in> set xs \<and> last xs \<noteq> h \<and> last xs \<noteq> p \<and> last xs < length s"
      using x(1) by simp
  qed
  have nth: "appendChild s p h ! k =
     (if k = h then (s ! h)\<lparr>parent := Some p, prev := lastChild (s ! p)\<rparr>
      else if k = p
      then (s ! p)\<lparr>lastChild := Some h,
                    firstChild := (if lastChild (s ! p) = None then Some h
                                   else firstChild (s ! p))\<rparr>
      else if lastChild (s ! p) = Some k then (s ! k)\<lparr>next_sibling := Some h\<rparr>
      else s ! k)" for k
  proof (rule appendChild_nth)
    show "\<forall>l. lastChild (s ! p) = Some l \<longrightarrow> l < length s \<and> l \<noteq> h \<and> l \<noteq> p"
      using lc l by (auto split: if_splits)
  qed (use p h in auto)
  show ?thesis
  proof (rule children_join)
    show "p < length (appendChild s p h)" using p by simp
    show "distinct (xs @ [h])" "p \<notin> set (xs @ [h])" using d h by auto
    show "siblings (appendChild s p h) p None xs (case [h] of [] \<Rightarrow> None | y # zs \<Rightarrow> Some y)"
    proof (simp, rule siblings_new_after[OF sib d(1)])
      show "\<forall>z\<in>set xs. parent (appendChild s p h ! z) = parent (s ! z) \<and>
              prev (appendChild s p h ! z) = prev (s ! z) \<and>
              next_sibling (appendChild s p h ! z) =
                (if z = last xs then Some h else next_sibling (s ! z))"
        using lc l d h(3) by (auto simp: nth)
    qed simp
    show "siblings (appendChild s p h) p (if xs = [] then None else Some (last xs)) [h] None"
      using h lc by (auto simp: nth detached_def)
    show "firstChild (appendChild s p h ! p) = (case xs @ [h] of [] \<Rightarrow> None | x # zs \<Rightarrow> Some x)"
      using fc lc h(4) by (cases xs) (auto simp: nth)
    show "lastChild (appendChild s p h ! p) =
            (if xs @ [h] = [] then None else Some (last (xs @ [h])))"
      using h(4) by (simp add: nth)
  qed
qed

text \<open>A node is replaced: the new node takes its place among the children.\<close>

lemma children_replace_by_html:
  assumes c: "children_are s p (xs @ n # ys)"
  shows "\<exists>s'. replace_by_html s n lit = Some s' \<and> length s' = Suc (length s) \<and>
           children_are s' p (xs @ length s # ys) \<and>
           content (s' ! length s) = (HtmlInline, lit, []) \<and>
           (\<forall>k<length s. content (s' ! k) = content (s ! k)) \<and>
           (\<forall>k<length s. k \<notin> insert p (set (xs @ n # ys)) \<longrightarrow> s' ! k = s ! k)"
proof -
  let ?h = "length s"
  let ?s1 = "alloc s (new_node HtmlInline lit)"
  have r: "\<forall>x\<in>set (xs @ n # ys). x < length s" "p < length s"
    using children_split(1,10)[OF c] by auto
  have c1: "children_are ?s1 p (xs @ n # ys)" by (rule children_alloc[OF c])
  have "\<exists>s'. insertBefore ?s1 n ?h = Some s' \<and> length s' = length ?s1 \<and>
           children_are s' p (xs @ ?h # n # ys) \<and>
           (\<forall>k. k \<notin> insert p (insert ?h (set (xs @ n # ys))) \<longrightarrow> s' ! k = ?s1 ! k)"
  proof (rule children_insertBefore[OF c1])
    show "?h \<notin> set (xs @ n # ys)" "?h \<noteq> p" using r by auto
  qed (simp_all add: alloc_new)
  then obtain s2 where s2: "insertBefore ?s1 n ?h = Some s2" "length s2 = length ?s1"
    "children_are s2 p ((xs @ [?h]) @ n # ys)"
    "\<forall>k. k \<notin> insert p (insert ?h (set (xs @ n # ys))) \<longrightarrow> s2 ! k = ?s1 ! k" by auto
  have c3: "children_are (unlink s2 n) p ((xs @ [?h]) @ ys)" by (rule children_unlink[OF s2(3)])
  have cont: "content (s2 ! k) = content (?s1 ! k)" for k
    using content_insertBefore[OF s2(1)] by simp
  have frame: "\<forall>k<length s. k \<notin> insert p (set (xs @ n # ys)) \<longrightarrow> unlink s2 n ! k = s ! k"
  proof (intro allI impI)
    fix k assume k: "k < length s" "k \<notin> insert p (set (xs @ n # ys))"
    have "unlink s2 n ! k = s2 ! k"
      using k children_split(3,4,5)[OF s2(3)] family_facts[OF s2(3)]
      by (auto simp: unlink_nth_child[OF s2(3)] Let_def split: list.splits if_splits)
    also have "\<dots> = ?s1 ! k" using s2(4) k by auto
    also have "\<dots> = s ! k" using k by (simp add: alloc_new)
    finally show "unlink s2 n ! k = s ! k" .
  qed
  have "replace_by_html s n lit = Some (unlink s2 n)"
    using s2(1) by (simp add: replace_by_html_def Let_def)
  moreover have "content (unlink s2 n ! ?h) = (HtmlInline, lit, [])"
  proof -
    have "content (unlink s2 n ! ?h) = content (?s1 ! ?h)" by (simp add: cont)
    also have "\<dots> = (HtmlInline, lit, [])" by (simp add: content_def alloc_def new_node_def)
    finally show ?thesis .
  qed
  moreover have "\<forall>k<length s. content (unlink s2 n ! k) = content (s ! k)"
    by (simp add: cont alloc_new)
  ultimately show ?thesis using c3 s2(2) frame by (simp add: alloc_new)
qed

lemma content_alloc_old: "k < length s \<Longrightarrow> content (alloc s nd ! k) = content (s ! k)"
  by (simp add: alloc_def nth_append)

lemma content_set_literal:
  "content (set_literal s n l ! k) =
     (if k = n \<and> n < length s then (ntype (s ! n), l, destination (s ! n)) else content (s ! k))"
  by (simp add: nth_set content_def)

lemma content_alloc_new: "content (alloc s (new_node t l) ! length s) = (t, l, [])"
  by (simp add: content_def alloc_def new_node_def)

text \<open>The splice of InsertHtmlIntoNode among the children of the leaf's parent.\<close>

lemma InsertHtmlIntoNode_children:
  assumes c: "children_are s p (xs @ n # ys)"
    and pre: "pre = substring (literal (s ! n)) 0 i"
    and post: "post = substring_from (literal (s ! n)) e"
    and wrap: "wrap = (case ntype (s ! n) of
                Code \<Rightarrow> ''<code><span'' @ data_attrs attrs @ ''></span></code>''
              | CodeBlock \<Rightarrow> ''<pre><code><span'' @ data_attrs attrs @ ''></span></code></pre>''
              | _ \<Rightarrow> ''<span'' @ data_attrs attrs @ ''></span>'')"
  shows "\<exists>s'. InsertHtmlIntoNode s n i e attrs = Some (s', length s) \<and>
       children_are s' p
         (xs @ (if pre = [] then [] else [n]) @ length s #
            (if post = [] then [] else [Suc (length s)]) @ ys) \<and>
       length s' = (if post = [] then Suc (length s) else Suc (Suc (length s))) \<and>
       content (s' ! n) = (ntype (s ! n), pre, destination (s ! n)) \<and>
       content (s' ! length s) = (HtmlInline, wrap, []) \<and>
       (post \<noteq> [] \<longrightarrow> content (s' ! Suc (length s)) = (ntype (s ! n), post, [])) \<and>
       (\<forall>k<length s. k \<noteq> n \<longrightarrow> content (s' ! k) = content (s ! k))"
proof -
  let ?h = "length s"
  let ?s1 = "set_literal s n pre"
  let ?s2 = "alloc ?s1 (new_node HtmlInline wrap)"
  let ?mid = "if pre = [] then [] else [n]"
  have r: "\<forall>x\<in>set (xs @ n # ys). x < length s" "p < length s" "n < length s"
    using children_split(1,2,10)[OF c] by auto
  have c2: "children_are ?s2 p (xs @ n # ys)"
    by (rule children_alloc[OF children_set_literal[OF c]])
  have "\<exists>s'. insertAfter ?s2 n ?h = Some s' \<and> length s' = length ?s2 \<and>
           children_are s' p (xs @ n # ?h # ys) \<and>
           (\<forall>k. k \<notin> insert p (insert ?h (set (xs @ n # ys))) \<longrightarrow> s' ! k = ?s2 ! k)"
  proof (rule children_insertAfter[OF c2])
    show "?h \<notin> set (xs @ n # ys)" "?h \<noteq> p" using r by auto
    show "?h < length ?s2" by (simp add: alloc_def)
    show "detached ?s2 ?h" using alloc_new(2)[of ?s1 HtmlInline wrap] by simp
  qed
  then obtain s3 where s3: "insertAfter ?s2 n ?h = Some s3" "length s3 = Suc (length s)"
    "children_are s3 p (xs @ n # ?h # ys)" by (auto simp: alloc_def)
  have cont3: "content (s3 ! k) = content (?s2 ! k)" for k
    by (rule content_insertAfter[OF s3(1)])
  have cn: "content (?s2 ! n) = (ntype (s ! n), pre, destination (s ! n))"
    using r(3) by (simp add: content_alloc_old content_set_literal)
  have ch: "content (?s2 ! ?h) = (HtmlInline, wrap, [])"
    using content_alloc_new[of ?s1 HtmlInline wrap] by simp
  have ck: "k < length s \<Longrightarrow> k \<noteq> n \<Longrightarrow> content (?s2 ! k) = content (s ! k)" for k
    by (simp add: content_alloc_old content_set_literal)
  have lit3: "literal (s3 ! n) = pre" using cont3[of n] cn by (simp add: content_def)
  define s4 where "s4 = (if literal (s3 ! n) = [] then unlink s3 n else s3)"
  have c4: "children_are s4 p ((xs @ ?mid) @ ?h # ys)"
    using children_unlink[OF s3(3)] s3(3) lit3 by (simp add: s4_def)
  have l4: "length s4 = Suc (length s)" using s3(2) by (simp add: s4_def)
  have cont4: "content (s4 ! k) = content (?s2 ! k)" for k
    using cont3 by (simp add: s4_def)
  have ty4: "ntype (s4 ! n) = ntype (s ! n)" using cont4[of n] cn by (simp add: content_def)
  have unfold: "InsertHtmlIntoNode s n i e attrs =
      (if post \<noteq> [] then
         (case insertAfter (alloc s4 (new_node (ntype (s4 ! n)) post)) ?h (length s4) of
            None \<Rightarrow> None
          | Some s6 \<Rightarrow> Some (s6, ?h))
       else Some (s4, ?h))"
    using s3(1) r(3) pre post wrap
    by (simp add: InsertHtmlIntoNode_def Let_def s4_def nth_set cong: option.case_cong)
  show ?thesis
  proof (cases "post = []")
    case True
    then show ?thesis using unfold c4 l4 cont4 cn ch ck by simp
  next
    case False
    let ?s5 = "alloc s4 (new_node (ntype (s ! n)) post)"
    have c5: "children_are ?s5 p ((xs @ ?mid) @ ?h # ys)" by (rule children_alloc[OF c4])
    have "\<exists>s'. insertAfter ?s5 ?h (Suc ?h) = Some s' \<and> length s' = length ?s5 \<and>
           children_are s' p ((xs @ ?mid) @ ?h # Suc ?h # ys) \<and>
           (\<forall>k. k \<notin> insert p (insert (Suc ?h) (set ((xs @ ?mid) @ ?h # ys))) \<longrightarrow>
                s' ! k = ?s5 ! k)"
    proof (rule children_insertAfter[OF c5])
      have "\<forall>x\<in>set (xs @ n # ys). x \<noteq> Suc ?h" using r(1) by fastforce
      then show "Suc ?h \<notin> set ((xs @ ?mid) @ ?h # ys)" by auto
      show "Suc ?h \<noteq> p" using r(2) by simp
      show "Suc ?h < length ?s5" using l4 by (simp add: alloc_def)
      show "detached ?s5 (Suc ?h)"
        using alloc_new(2)[of s4 "ntype (s ! n)" post] l4 by simp
    qed
    then obtain s6 where s6: "insertAfter ?s5 ?h (Suc ?h) = Some s6"
      "length s6 = Suc (Suc (length s))"
      "children_are s6 p ((xs @ ?mid) @ ?h # Suc ?h # ys)" using l4 by (auto simp: alloc_def)
    have cont6: "content (s6 ! k) = content (?s5 ! k)" for k
      by (rule content_insertAfter[OF s6(1)])
    have old: "k < Suc (length s) \<Longrightarrow> content (s6 ! k) = content (?s2 ! k)" for k
      using cont6[of k] cont4[of k] l4 by (simp add: content_alloc_old)
    have new: "content (s6 ! Suc ?h) = (ntype (s ! n), post, [])"
      using cont6[of "Suc ?h"] content_alloc_new[of s4 "ntype (s ! n)" post] l4 by simp
    have "InsertHtmlIntoNode s n i e attrs = Some (s6, ?h)"
      using unfold False s6(1) ty4 l4 by simp
    then show ?thesis using False s6(2,3) old new cn ch ck r(3) by simp
  qed
qed

subsection \<open>Tokens\<close>

lemma find_macro_Some:
  "find_macro lit j = Some i \<Longrightarrow> j \<le> i \<and> i < length lit \<and> lit ! i = CHR ''{''"
proof (induction lit j rule: find_macro.induct)
  case (1 lit j)
  from "1.prems" have jl: "j < length lit"
    by (subst (asm) find_macro.simps) (simp split: if_splits)
  consider (esc) "lit ! j = backslash"
    | (brace) "lit ! j \<noteq> backslash" "lit ! j = CHR ''{''"
    | (other) "lit ! j \<noteq> backslash" "lit ! j \<noteq> CHR ''{''" by blast
  then show ?case
  proof cases
    case esc
    then have "find_macro lit (j + 2) = Some i"
      using "1.prems" jl by (subst (asm) find_macro.simps) simp
    from "1.IH"(1)[OF jl esc this] show ?thesis by simp
  next
    case brace
    then have "i = j" using "1.prems" jl by (subst (asm) find_macro.simps) simp
    then show ?thesis using jl brace by simp
  next
    case other
    then have "find_macro lit (j + 1) = Some i"
      using "1.prems" jl by (subst (asm) find_macro.simps) simp
    from "1.IH"(2)[OF jl other this] show ?thesis by simp
  qed
qed

lemma substring_prefix: "i \<le> length lit \<Longrightarrow> substring lit 0 i = take i lit"
  by (simp add: substring_def)

lemma substring_inner: "substring (a # body @ [b]) 1 (length (a # body @ [b]) - 1) = body"
  by (simp add: substring_def)

text \<open>A token that the scan returns starts with the brace at \<open>i\<close> and ends with a closing one.\<close>

lemma scan_macro_shape:
  assumes "scan_macro lit i (i + 1) 1 = Some m" "i < length lit" "lit ! i = CHR ''{''"
  shows "m = CHR ''{'' # substring m 1 (length m - 1) @ ''}''"
proof -
  have d1: "(1::int) = brace_depth (substring lit i (i + 1))"
    using brace_depth_open assms by simp
  from scan_macro_Some[OF assms(1) _ d1]
  obtain e where e: "i + 1 \<le> e" "e < length lit" "m = substring lit i (e + 1)" "brace_depth m = 0"
    "\<forall>k. i + 1 \<le> k \<and> k < e \<longrightarrow> 0 < brace_depth (substring lit i (k + 1))" by auto
  have before: "0 < brace_depth (substring lit i e)"
  proof (cases "e = i + 1")
    case True then show ?thesis using d1 by simp
  next
    case False
    then have "i + 1 \<le> e - 1 \<and> e - 1 < e" using e(1) by simp
    then have "0 < brace_depth (substring lit i (e - 1 + 1))" using e(5) by blast
    then show ?thesis using e(1) by simp
  qed
  have "brace_depth (substring lit i (Suc e)) = brace_depth (substring lit i e) +
           (if lit ! e = CHR ''{'' then 1 else if lit ! e = CHR ''}'' then - 1 else 0)"
    using brace_depth_step[of i e lit] e(1,2) by simp
  then have close: "lit ! e = CHR ''}''" using before e(3,4) by (auto split: if_splits)
  have m: "m = take (e + 1 - i) (drop i lit)" using e(2,3) e(1) by (simp add: substring_def)
  have len: "length m = e + 1 - i" using m e(2) by simp
  have hd: "m ! 0 = CHR ''{''" using m assms(2,3) e(1) by simp
  have lst: "m ! (length m - 1) = CHR ''}''" using m len close e(1,2) by simp
  have "length m \<ge> 2" using len e(1) by simp
  then obtain a t where at: "m = a # t" "t \<noteq> []" by (cases m; cases "tl m") auto
  define body where "body = butlast t"
  define b where "b = last t"
  have abc: "m = a # body @ [b]" using at by (simp add: body_def b_def)
  have "a = CHR ''{''" using hd abc by simp
  moreover have "b = CHR ''}''" using lst abc by (simp add: nth_append)
  moreover have "substring m 1 (length m - 1) = body" using abc substring_inner by simp
  ultimately show ?thesis using abc by simp
qed

subsection \<open>Macros in text, code and code blocks\<close>

text \<open>
  Claim C5. When the loop of RenderText reaches an opening brace at index \<open>i\<close> of the
  literal of a leaf, and the token that starts there has the sigil \<open>@\<close>, \<open>#\<close> or
  \<open>$\<close>, then RenderText succeeds and splices the children of the leaf's parent: the leaf
  keeps the literal before the token (with its backslashes stripped) and is removed when
  that is empty; a new \<open>html_inline\<close> node follows, whose literal is a span with the
  attribute \<open>data-expand-macro\<close> set to the token without its braces, the sigil kept,
  wrapped in \<open><code>\<close> under a code leaf and in \<open><pre><code>\<close> under a code
  block; the literal after the token, when there is one, follows as a new leaf of the
  kind of the original one and is left as it was, so that one token is rewritten per
  visit. The walker is resumed at the new \<open>html_inline\<close> node.
\<close>

theorem RenderText_splices_macro:
  assumes c: "children_are (ast st) p (xs @ n # ys)" and ev: "event_node ev = n"
    and lit: "literal (ast st ! n) = lit"
    and found: "find_macro lit 0 = Some i"
    and scan: "scan_macro lit i (i + 1) 1 = Some macro"
    and sigil: "char_at macro 1 = Some CHR ''@'' \<or> char_at macro 1 = Some CHR ''#''
                \<or> char_at macro 1 = Some CHR ''$''"
    and span: \<open>span = ''<span data-expand-macro="'' @ substring macro 1 (length macro - 1)
                        @ ''"></span>''\<close>
  shows "\<exists>st'. RenderText st ev = Ok st' \<and>
           macro = CHR ''{'' # substring macro 1 (length macro - 1) @ ''}'' \<and>
           children_are (ast st') p
             (xs @ (if take i lit = [] then [] else [n]) @ length (ast st) #
                (if drop (i + length macro) lit = [] then [] else [Suc (length (ast st))]) @ ys) \<and>
           content (ast st' ! n) =
             (ntype (ast st ! n), strip_backslashes (take i lit), destination (ast st ! n)) \<and>
           content (ast st' ! length (ast st)) =
             (HtmlInline,
              (case ntype (ast st ! n) of
                 Code \<Rightarrow> ''<code>'' @ span @ ''</code>''
               | CodeBlock \<Rightarrow> ''<pre><code>'' @ span @ ''</code></pre>''
               | _ \<Rightarrow> span), []) \<and>
           (drop (i + length macro) lit \<noteq> [] \<longrightarrow>
              content (ast st' ! Suc (length (ast st))) =
                (ntype (ast st ! n), drop (i + length macro) lit, [])) \<and>
           (\<forall>k<length (ast st). k \<noteq> n \<longrightarrow> content (ast st' ! k) = content (ast st ! k)) \<and>
           length (ast st') =
             (if drop (i + length macro) lit = [] then Suc (length (ast st))
              else Suc (Suc (length (ast st)))) \<and>
           walker st' = resumeAt (walker st) (length (ast st)) \<and>
           nextInlineID st' = nextInlineID st \<and> sectionCount st' = sectionCount st"
proof -
  let ?s = "ast st"
  let ?attrs = "[(''expand-macro'', substring macro 1 (length macro - 1))]"
  let ?wrap = "case ntype (?s ! n) of
                Code \<Rightarrow> ''<code><span'' @ data_attrs ?attrs @ ''></span></code>''
              | CodeBlock \<Rightarrow> ''<pre><code><span'' @ data_attrs ?attrs @ ''></span></code></pre>''
              | _ \<Rightarrow> ''<span'' @ data_attrs ?attrs @ ''></span>''"
  have i: "i < length lit" "lit ! i = CHR ''{''" using find_macro_Some[OF found] by auto
  have shape: "macro = CHR ''{'' # substring macro 1 (length macro - 1) @ ''}''"
    by (rule scan_macro_shape[OF scan i])
  have nosec: "char_at macro 1 \<noteq> Some CHR ''{''" using sigil by auto
  have n: "n < length ?s" using children_split(2)[OF c] .
  from InsertHtmlIntoNode_children[OF c refl refl refl, of i "i + length macro" ?attrs]
  obtain s' where s': "InsertHtmlIntoNode ?s n i (i + length macro) ?attrs = Some (s', length ?s)"
    "children_are s' p
         (xs @ (if take i lit = [] then [] else [n]) @ length ?s #
            (if drop (i + length macro) lit = [] then [] else [Suc (length ?s)]) @ ys)"
    "length s' = (if drop (i + length macro) lit = [] then Suc (length ?s) else Suc (Suc (length ?s)))"
    "content (s' ! n) = (ntype (?s ! n), take i lit, destination (?s ! n))"
    "content (s' ! length ?s) = (HtmlInline, ?wrap, [])"
    "drop (i + length macro) lit \<noteq> [] \<longrightarrow>
       content (s' ! Suc (length ?s)) = (ntype (?s ! n), drop (i + length macro) lit, [])"
    "\<forall>k<length ?s. k \<noteq> n \<longrightarrow> content (s' ! k) = content (?s ! k)"
    using lit i(1) by (auto simp: substring_prefix substring_from_def)
  define st' where "st' = st\<lparr>ast := set_literal s' n (strip_backslashes (literal (s' ! n))),
                             walker := resumeAt (walker st) (length ?s)\<rparr>"
  have rm: "rewrite_macro st n i = Ok (st\<lparr>ast := s', walker := resumeAt (walker st) (length ?s)\<rparr>)"
    using scan lit sigil nosec s'(1) by (auto simp: rewrite_macro_def)
  have rt: "RenderText st ev = Ok st'"
    using ev lit found rm by (simp add: RenderText_def st'_def)
  have nlt: "n < length s'" using n s'(3) by (simp split: if_splits)
  have wrap_eq: "?wrap = (case ntype (?s ! n) of
                 Code \<Rightarrow> ''<code>'' @ span @ ''</code>''
               | CodeBlock \<Rightarrow> ''<pre><code>'' @ span @ ''</code></pre>''
               | _ \<Rightarrow> span)"
    by (cases "ntype (?s ! n)") (simp_all add: span data_attrs_def)
  have lits: "literal (s' ! n) = take i lit" using s'(4) by (simp add: content_def)
  have c1: "children_are (ast st') p
             (xs @ (if take i lit = [] then [] else [n]) @ length ?s #
                (if drop (i + length macro) lit = [] then [] else [Suc (length ?s)]) @ ys)"
    using children_set_literal[OF s'(2)] by (simp add: st'_def)
  have c2: "content (ast st' ! n) =
      (ntype (?s ! n), strip_backslashes (take i lit), destination (?s ! n))"
    using s'(4) nlt lits by (simp add: st'_def content_def nth_set)
  have ne: "length ?s \<noteq> n" "Suc (length ?s) \<noteq> n" using n by auto
  have c3: "content (ast st' ! length ?s) = (HtmlInline, ?wrap, [])"
    using s'(5) ne by (simp add: st'_def content_set_literal)
  have c4: "drop (i + length macro) lit \<noteq> [] \<longrightarrow>
       content (ast st' ! Suc (length ?s)) = (ntype (?s ! n), drop (i + length macro) lit, [])"
    using s'(6) ne by (simp add: st'_def content_set_literal)
  have c5: "\<forall>k<length ?s. k \<noteq> n \<longrightarrow> content (ast st' ! k) = content (?s ! k)"
    using s'(7) by (simp add: st'_def content_set_literal)
  have c6: "length (ast st') = (if drop (i + length macro) lit = [] then Suc (length ?s)
              else Suc (Suc (length ?s)))"
    using s'(3) by (simp add: st'_def)
  have c7: "walker st' = resumeAt (walker st) (length ?s)"
    "nextInlineID st' = nextInlineID st" "sectionCount st' = sectionCount st"
    by (simp_all add: st'_def)
  show ?thesis
    using rt shape c1 c2 c3[unfolded wrap_eq] c4 c5 c6 c7 by blast
qed

text \<open>
  The theorem at the text leaf \<open>ab {$x} cd\<close>: the leaf keeps \<open>ab \<close>, the span
  for \<open>$x\<close> and a new text leaf \<open> cd\<close> follow it.
\<close>

theorem RenderText_splices_macro_witness:
  \<open>\<exists>st'. RenderText (start_state (leaf_document Text ''ab {$x} cd'')) (entering_event 2) = Ok st' \<and>
     children_are (ast st') 1 [2, 3, 4] \<and>
     content (ast st' ! 2) = (Text, ''ab '', []) \<and>
     content (ast st' ! 3) = (HtmlInline, ''<span data-expand-macro="$x"></span>'', []) \<and>
     content (ast st' ! 4) = (Text, '' cd'', []) \<and>
     length (ast st') = 5 \<and>
     walker st' = resumeAt (new_walker 0) 3\<close>
proof -
  let ?st = "start_state (leaf_document Text ''ab {$x} cd'')"
  have c: "children_are (ast ?st) 1 ([] @ 2 # [])"
    by (simp add: children_are_def start_state_def leaf_document_def)
  have ev: "event_node (entering_event 2) = 2" by (simp add: entering_event_def)
  have lit: "literal (ast ?st ! 2) = ''ab {$x} cd''"
    by (simp add: start_state_def leaf_document_def)
  have found: "find_macro ''ab {$x} cd'' 0 = Some 3"
    by (simp add: find_macro.simps backslash_def)
  have scan: "scan_macro ''ab {$x} cd'' 3 (3 + 1) 1 = Some ''{$x}''"
    by (simp add: scan_macro.simps substring_def)
  have sigil: "char_at ''{$x}'' 1 = Some CHR ''@'' \<or> char_at ''{$x}'' 1 = Some CHR ''#''
                \<or> char_at ''{$x}'' 1 = Some CHR ''$''"
    by (simp add: char_at_def)
  show ?thesis
    using RenderText_splices_macro[OF c ev lit found scan sigil refl]
    by (clarsimp simp: start_state_def leaf_document_def strip_backslashes_def backslash_def
        substring_def eval_nat_numeral)
qed

subsection \<open>Links\<close>

lemma split_char_no_sep: "c \<notin> set x \<Longrightarrow> split_char c x = [x]"
  by (induction x) auto

lemma split_char_sep: "c \<notin> set x \<Longrightarrow> split_char c (x @ c # y) = x # split_char c y"
  by (induction x) auto

lemma split_char_nonempty: "split_char c x \<noteq> []"
  by (induction x) (auto split: list.splits)

lemma braces_shape:
  assumes "url = CHR ''{'' # body @ ''}''"
  shows "char_at url 0 = Some CHR ''{''" "char_at url (length url - 1) = Some CHR ''}''"
    "substring url 1 (length url - 1) = body"
  using assms by (simp_all add: char_at_def substring_def nth_append)

lemma GetLinkText_Some:
  "ntype (s ! n) = Link \<Longrightarrow> \<exists>t. GetLinkText render s n = Some t"
  by (simp add: GetLinkText_def Let_def)

lemma RewriteLinkNode_children:
  assumes c: "children_are s p (xs @ n # ys)" and link: "ntype (s ! n) = Link"
    and lit: \<open>lit = (case id' of
                 None \<Rightarrow> ''<a href="#"'' @ data_attrs attrs @ ''>'' @ t @ ''</a>''
               | Some i \<Rightarrow> ''<a href="#" id="'' @ i @ ''"'' @ data_attrs attrs @ ''>'' @ t @ ''</a>'')\<close>
  shows "\<exists>s'. RewriteLinkNode s n attrs (Some t) id' = Ok s' \<and> length s' = Suc (length s) \<and>
           children_are s' p (xs @ length s # ys) \<and>
           content (s' ! length s) = (HtmlInline, lit, []) \<and>
           (\<forall>k<length s. content (s' ! k) = content (s ! k))"
proof -
  from children_replace_by_html[OF c, of lit]
  obtain s' where s': "replace_by_html s n lit = Some s'" "length s' = Suc (length s)"
    "children_are s' p (xs @ length s # ys)" "content (s' ! length s) = (HtmlInline, lit, [])"
    "\<forall>k<length s. content (s' ! k) = content (s ! k)" by blast
  have "RewriteLinkNode s n attrs (Some t) id' = Ok s'"
    using link s'(1) lit by (simp add: RewriteLinkNode_def Let_def)
  then show ?thesis using s' by blast
qed

text \<open>RenderLink on leaving a link whose destination is a macro without the inline modifier.\<close>

lemma RenderLink_plain:
  assumes link: "ntype (ast st ! n) = Link" and ev: "event_node ev = n" "\<not> event_entering ev"
    and url: "decode_braces (destination (ast st ! n)) = CHR ''{'' # body @ ''}''"
    and tok: "split_char CHR '':'' body = ident # rest" "rest = [] \<or> hd rest \<noteq> ''inline''"
  shows "RenderLink render st ev =
     (if char_at ident 0 = Some CHR ''@'' then
        (case RewriteLinkNode (ast st) n [(''goto-section'', substring_from ident 1)]
                (GetLinkText render (ast st) n) None of
           Failed e s' \<Rightarrow> Failed e (st\<lparr>ast := s'\<rparr>)
         | Ok s' \<Rightarrow> Ok (st\<lparr>ast := s'\<rparr>))
      else if char_at ident 0 = Some CHR ''#'' then
        (case RewriteLinkNode (ast st) n [(''call-function'', substring_from ident 1)]
                (GetLinkText render (ast st) n) None of
           Failed e s' \<Rightarrow> Failed e (st\<lparr>ast := s'\<rparr>)
         | Ok s' \<Rightarrow> Ok (st\<lparr>ast := s'\<rparr>))
      else if char_at ident 0 = Some CHR ''$'' then Failed InvalidLinkMacro st
      else Failed UnrecognizedMacro st)"
proof -
  note b = braces_shape[OF url]
  have m: "(if length (ident # rest) > 1 then (ident # rest) ! 1 else []) \<noteq> ''inline''"
    using tok(2) by (cases rest) auto
  show ?thesis
    using link ev b tok(1) m url
    by (simp add: RenderLink_def Let_def del: One_nat_def)
qed

text \<open>
  Claim C6. The destination of a link is read through the decoding of the first
  \<open>%7B\<close> and the first \<open>%7D\<close>, the form in which the parser stores braces.
  Entering a link changes nothing. On leaving it: a destination that does not begin with
  \<open>{\<close> leaves the link untouched; one that begins with \<open>{\<close> and does not end
  with \<open>}\<close> fails with UnterminatedMacro; for a destination \<open>{body}\<close> whose
  second token is not \<open>inline\<close>, the sigil of the first token decides: with
  \<open>@\<close> the link is replaced among the children of its parent by an anchor without id
  whose \<open>data-goto-section\<close> is the token without the sigil, with \<open>#\<close> by one
  with \<open>data-call-function\<close> likewise; \<open>$\<close> fails with InvalidLinkMacro and
  anything else with UnrecognizedMacro.
\<close>

theorem RenderLink_dispatch:
  assumes c: "children_are (ast st) p (xs @ n # ys)" and link: "ntype (ast st ! n) = Link"
    and ev: "event_node ev = n"
    and url: "url = decode_braces (destination (ast st ! n))"
  shows
   \<open>(event_entering ev \<longrightarrow> RenderLink render st ev = Ok st) \<and>
    (\<not> event_entering ev \<longrightarrow>
       (char_at url 0 \<noteq> Some CHR ''{'' \<longrightarrow> RenderLink render st ev = Ok st) \<and>
       (char_at url 0 = Some CHR ''{'' \<and> char_at url (length url - 1) \<noteq> Some CHR ''}'' \<longrightarrow>
          RenderLink render st ev = Failed UnterminatedMacro st) \<and>
       (\<forall>body ident rest.
          url = CHR ''{'' # body @ ''}'' \<and> split_char CHR '':'' body = ident # rest \<and>
          (rest = [] \<or> hd rest \<noteq> ''inline'') \<longrightarrow>
          (\<forall>name. ident = CHR ''@'' # name \<longrightarrow>
             (\<exists>st' t. RenderLink render st ev = Ok st' \<and>
                GetLinkText render (ast st) n = Some t \<and>
                children_are (ast st') p (xs @ length (ast st) # ys) \<and>
                content (ast st' ! length (ast st)) =
                  (HtmlInline, ''<a href="#" data-goto-section="'' @ name @ ''">'' @ t @ ''</a>'', []) \<and>
                (\<forall>k<length (ast st). content (ast st' ! k) = content (ast st ! k)) \<and>
                walker st' = walker st \<and> nextInlineID st' = nextInlineID st \<and>
                sectionCount st' = sectionCount st)) \<and>
          (\<forall>name. ident = CHR ''#'' # name \<longrightarrow>
             (\<exists>st' t. RenderLink render st ev = Ok st' \<and>
                GetLinkText render (ast st) n = Some t \<and>
                children_are (ast st') p (xs @ length (ast st) # ys) \<and>
                content (ast st' ! length (ast st)) =
                  (HtmlInline, ''<a href="#" data-call-function="'' @ name @ ''">'' @ t @ ''</a>'', []) \<and>
                (\<forall>k<length (ast st). content (ast st' ! k) = content (ast st ! k)) \<and>
                walker st' = walker st \<and> nextInlineID st' = nextInlineID st \<and>
                sectionCount st' = sectionCount st)) \<and>
          (\<forall>name. ident = CHR ''$'' # name \<longrightarrow>
             RenderLink render st ev = Failed InvalidLinkMacro st) \<and>
          (ident = [] \<or> (hd ident \<noteq> CHR ''@'' \<and> hd ident \<noteq> CHR ''#'' \<and> hd ident \<noteq> CHR ''$'') \<longrightarrow>
             RenderLink render st ev = Failed UnrecognizedMacro st)))\<close>
proof -
  have enter: "event_entering ev \<Longrightarrow> RenderLink render st ev = Ok st"
    using link ev by (simp add: RenderLink_def)
  have nomacro: "RenderLink render st ev = Ok st"
    if "\<not> event_entering ev" "char_at url 0 \<noteq> Some CHR ''{''"
    using that link ev url by (simp add: RenderLink_def Let_def)
  have unterminated: "RenderLink render st ev = Failed UnterminatedMacro st"
    if "\<not> event_entering ev" "char_at url 0 = Some CHR ''{''"
      "char_at url (length url - 1) \<noteq> Some CHR ''}''"
    using that link ev url by (simp add: RenderLink_def Let_def)
  obtain t where t: "GetLinkText render (ast st) n = Some t"
    using GetLinkText_Some[OF link] by blast
  have anchor: "\<exists>st' t. RenderLink render st ev = Ok st' \<and>
                GetLinkText render (ast st) n = Some t \<and>
                children_are (ast st') p (xs @ length (ast st) # ys) \<and>
                content (ast st' ! length (ast st)) =
                  (HtmlInline, ''<a href=\"#\"'' @ data_attrs [(attr, name)] @ ''>'' @ t @ ''</a>'', []) \<and>
                (\<forall>k<length (ast st). content (ast st' ! k) = content (ast st ! k)) \<and>
                walker st' = walker st \<and> nextInlineID st' = nextInlineID st \<and>
                sectionCount st' = sectionCount st"
    if r: "RenderLink render st ev =
             (case RewriteLinkNode (ast st) n [(attr, name)] (GetLinkText render (ast st) n) None of
                Failed e s' \<Rightarrow> Failed e (st\<lparr>ast := s'\<rparr>)
              | Ok s' \<Rightarrow> Ok (st\<lparr>ast := s'\<rparr>))" for attr name
  proof -
    from RewriteLinkNode_children[OF c link refl, where id' = None and attrs = "[(attr, name)]" and t = t]
    obtain s' where s': "RewriteLinkNode (ast st) n [(attr, name)] (Some t) None = Ok s'"
      "children_are s' p (xs @ length (ast st) # ys)"
      "content (s' ! length (ast st)) =
         (HtmlInline, ''<a href=\"#\"'' @ data_attrs [(attr, name)] @ ''>'' @ t @ ''</a>'', [])"
      "\<forall>k<length (ast st). content (s' ! k) = content (ast st ! k)" by auto
    have "RenderLink render st ev = Ok (st\<lparr>ast := s'\<rparr>)" using r t s'(1) by simp
    then show ?thesis using t s'(2,3,4) by auto
  qed
  have main: "(\<forall>name. ident = CHR ''@'' # name \<longrightarrow>
             (\<exists>st' t. RenderLink render st ev = Ok st' \<and>
                GetLinkText render (ast st) n = Some t \<and>
                children_are (ast st') p (xs @ length (ast st) # ys) \<and>
                content (ast st' ! length (ast st)) =
                  (HtmlInline, ''<a href=\"#\" data-goto-section=\"'' @ name @ ''\">'' @ t @ ''</a>'', []) \<and>
                (\<forall>k<length (ast st). content (ast st' ! k) = content (ast st ! k)) \<and>
                walker st' = walker st \<and> nextInlineID st' = nextInlineID st \<and>
                sectionCount st' = sectionCount st)) \<and>
          (\<forall>name. ident = CHR ''#'' # name \<longrightarrow>
             (\<exists>st' t. RenderLink render st ev = Ok st' \<and>
                GetLinkText render (ast st) n = Some t \<and>
                children_are (ast st') p (xs @ length (ast st) # ys) \<and>
                content (ast st' ! length (ast st)) =
                  (HtmlInline, ''<a href=\"#\" data-call-function=\"'' @ name @ ''\">'' @ t @ ''</a>'', []) \<and>
                (\<forall>k<length (ast st). content (ast st' ! k) = content (ast st ! k)) \<and>
                walker st' = walker st \<and> nextInlineID st' = nextInlineID st \<and>
                sectionCount st' = sectionCount st)) \<and>
          (\<forall>name. ident = CHR ''$'' # name \<longrightarrow>
             RenderLink render st ev = Failed InvalidLinkMacro st) \<and>
          (ident = [] \<or> (hd ident \<noteq> CHR ''@'' \<and> hd ident \<noteq> CHR ''#'' \<and> hd ident \<noteq> CHR ''$'') \<longrightarrow>
             RenderLink render st ev = Failed UnrecognizedMacro st)"
    if exit: "\<not> event_entering ev" and u: "url = CHR ''{'' # body @ ''}''"
      and tok: "split_char CHR '':'' body = ident # rest" "rest = [] \<or> hd rest \<noteq> ''inline''"
    for body ident rest
  proof -
    note p = RenderLink_plain[OF link ev exit u[unfolded url] tok, of render]
    have a: "\<exists>st' t. RenderLink render st ev = Ok st' \<and>
                GetLinkText render (ast st) n = Some t \<and>
                children_are (ast st') p (xs @ length (ast st) # ys) \<and>
                content (ast st' ! length (ast st)) =
                  (HtmlInline, ''<a href=\"#\" data-goto-section=\"'' @ name @ ''\">'' @ t @ ''</a>'', []) \<and>
                (\<forall>k<length (ast st). content (ast st' ! k) = content (ast st ! k)) \<and>
                walker st' = walker st \<and> nextInlineID st' = nextInlineID st \<and>
                sectionCount st' = sectionCount st"
      if "ident = CHR ''@'' # name" for name
      using anchor[of "''goto-section''" name] p that
      by (simp add: char_at_def substring_from_def data_attrs_def)
    have b: "\<exists>st' t. RenderLink render st ev = Ok st' \<and>
                GetLinkText render (ast st) n = Some t \<and>
                children_are (ast st') p (xs @ length (ast st) # ys) \<and>
                content (ast st' ! length (ast st)) =
                  (HtmlInline, ''<a href=\"#\" data-call-function=\"'' @ name @ ''\">'' @ t @ ''</a>'', []) \<and>
                (\<forall>k<length (ast st). content (ast st' ! k) = content (ast st ! k)) \<and>
                walker st' = walker st \<and> nextInlineID st' = nextInlineID st \<and>
                sectionCount st' = sectionCount st"
      if "ident = CHR ''#'' # name" for name
      using anchor[of "''call-function''" name] p that
      by (simp add: char_at_def substring_from_def data_attrs_def)
    have d: "RenderLink render st ev = Failed InvalidLinkMacro st"
      if "ident = CHR ''$'' # name" for name
      using p that by (simp add: char_at_def)
    have e: "RenderLink render st ev = Failed UnrecognizedMacro st"
      if "ident = [] \<or> (hd ident \<noteq> CHR ''@'' \<and> hd ident \<noteq> CHR ''#'' \<and> hd ident \<noteq> CHR ''$'')"
      using p that by (cases ident) (auto simp: char_at_def)
    from a b d e show ?thesis by blast
  qed
  from enter nomacro unterminated main show ?thesis by blast
qed

lemma link_document_facts:
  "children_are (ast (start_state (link_document d))) 1 ([] @ 2 # [])"
  "ntype (ast (start_state (link_document d)) ! 2) = Link"
  "event_node (leaving_event 2) = 2"
  "\<not> event_entering (leaving_event 2)"
  "destination (ast (start_state (link_document d)) ! 2) = d"
  "length (ast (start_state (link_document d))) = 4"
  by (simp_all add: children_are_def start_state_def link_document_def leaving_event_def)

text \<open>
  The theorem at a link in a paragraph, for the destinations \<open>{@Foo}\<close> (as the parser
  stores it), \<open>{#f:x}\<close>, \<open>{$v}\<close>, \<open>{v}\<close>, \<open>{@Foo\<close> and
  \<open>page.html\<close>, and on entering the link.
\<close>

theorem RenderLink_dispatch_witness:
  \<open>\<forall>render.
     (\<exists>st' t. RenderLink render (start_state (link_document ''%7B@Foo%7D'')) (leaving_event 2) = Ok st' \<and>
        GetLinkText render (link_document ''%7B@Foo%7D'') 2 = Some t \<and>
        children_are (ast st') 1 [4] \<and>
        content (ast st' ! 4) = (HtmlInline, ''<a href="#" data-goto-section="Foo">'' @ t @ ''</a>'', [])) \<and>
     (\<exists>st' t. RenderLink render (start_state (link_document ''{#f:x}'')) (leaving_event 2) = Ok st' \<and>
        GetLinkText render (link_document ''{#f:x}'') 2 = Some t \<and>
        children_are (ast st') 1 [4] \<and>
        content (ast st' ! 4) = (HtmlInline, ''<a href="#" data-call-function="f">'' @ t @ ''</a>'', [])) \<and>
     RenderLink render (start_state (link_document ''{$v}'')) (leaving_event 2) =
       Failed InvalidLinkMacro (start_state (link_document ''{$v}'')) \<and>
     RenderLink render (start_state (link_document ''{v}'')) (leaving_event 2) =
       Failed UnrecognizedMacro (start_state (link_document ''{v}'')) \<and>
     RenderLink render (start_state (link_document ''{@Foo'')) (leaving_event 2) =
       Failed UnterminatedMacro (start_state (link_document ''{@Foo'')) \<and>
     RenderLink render (start_state (link_document ''page.html'')) (leaving_event 2) =
       Ok (start_state (link_document ''page.html'')) \<and>
     RenderLink render (start_state (link_document ''{@Foo}'')) (entering_event 2) =
       Ok (start_state (link_document ''{@Foo}''))\<close>
proof -
  note f = link_document_facts
  have dec: "decode_braces ''%7B@Foo%7D'' = ''{@Foo}''" "decode_braces ''{#f:x}'' = ''{#f:x}''"
    "decode_braces ''{$v}'' = ''{$v}''" "decode_braces ''{v}'' = ''{v}''"
    "decode_braces ''{@Foo'' = ''{@Foo''" "decode_braces ''page.html'' = ''page.html''"
    by (simp_all add: decode_braces_def)
  have a: "\<exists>st' t. RenderLink render (start_state (link_document ''%7B@Foo%7D'')) (leaving_event 2) = Ok st' \<and>
        GetLinkText render (link_document ''%7B@Foo%7D'') 2 = Some t \<and>
        children_are (ast st') 1 [4] \<and>
        content (ast st' ! 4) = (HtmlInline, ''<a href=\"#\" data-goto-section=\"Foo\">'' @ t @ ''</a>'', [])"
    for render
    using RenderLink_dispatch[where st = "start_state (link_document ''%7B@Foo%7D'')" and render = render, OF f(1,2,3) refl]
    by (simp add: f dec) (auto simp: start_state_def)
  have b: "\<exists>st' t. RenderLink render (start_state (link_document ''{#f:x}'')) (leaving_event 2) = Ok st' \<and>
        GetLinkText render (link_document ''{#f:x}'') 2 = Some t \<and>
        children_are (ast st') 1 [4] \<and>
        content (ast st' ! 4) = (HtmlInline, ''<a href=\"#\" data-call-function=\"f\">'' @ t @ ''</a>'', [])"
    for render
    using RenderLink_dispatch[where st = "start_state (link_document ''{#f:x}'')" and render = render, OF f(1,2,3) refl]
    by (simp add: f dec) (auto simp: start_state_def)
  have d: "RenderLink render (start_state (link_document ''{$v}'')) (leaving_event 2) =
       Failed InvalidLinkMacro (start_state (link_document ''{$v}''))"
    for render
    using RenderLink_dispatch[where st = "start_state (link_document ''{$v}'')" and render = render, OF f(1,2,3) refl]
    by (simp add: f dec)
  have e: "RenderLink render (start_state (link_document ''{v}'')) (leaving_event 2) =
       Failed UnrecognizedMacro (start_state (link_document ''{v}''))"
    for render
    using RenderLink_dispatch[where st = "start_state (link_document ''{v}'')" and render = render, OF f(1,2,3) refl]
    by (simp add: f dec)
  have g: "RenderLink render (start_state (link_document ''{@Foo'')) (leaving_event 2) =
       Failed UnterminatedMacro (start_state (link_document ''{@Foo''))"
    for render
    using RenderLink_dispatch[where st = "start_state (link_document ''{@Foo'')" and render = render, OF f(1,2,3) refl]
    by (simp add: f dec char_at_def)
  have h: "RenderLink render (start_state (link_document ''page.html'')) (leaving_event 2) =
       Ok (start_state (link_document ''page.html''))"
    for render
    using RenderLink_dispatch[where st = "start_state (link_document ''page.html'')" and render = render, OF f(1,2,3) refl]
    by (simp add: f dec char_at_def)
  have i: "RenderLink render (start_state (link_document ''{@Foo}'')) (entering_event 2) =
       Ok (start_state (link_document ''{@Foo}''))"
    for render
    using RenderLink_dispatch[where st = "start_state (link_document ''{@Foo}'')" and render = render
        and ev = "entering_event 2", OF f(1,2) _ refl]
    by (simp add: entering_event_def)
  from a b d e g h i show ?thesis by blast
qed

subsection \<open>The counter of inline links\<close>

lemma of_char_digit: "d < 10 \<Longrightarrow> (of_char (digit_char d) :: nat) = 48 + d"
proof -
  assume d: "d < 10"
  have "(of_char (digit_char d) :: nat) = (48 + d) mod 256"
    unfolding digit_char_def by (rule of_char_of)
  also have "\<dots> = 48 + d" using d by simp
  finally show ?thesis .
qed

lemma digit_char_inj:
  assumes "a < 10" "b < 10" "digit_char a = digit_char b"
  shows "a = b"
proof -
  have "48 + a = (of_char (digit_char a) :: nat)" by (rule of_char_digit[OF assms(1), symmetric])
  also have "\<dots> = of_char (digit_char b)" by (simp only: assms(3))
  also have "\<dots> = 48 + b" by (rule of_char_digit[OF assms(2)])
  finally show ?thesis by simp
qed

lemma string_of_nat_length: "10 \<le> n \<Longrightarrow> 2 \<le> length (string_of_nat n)"
  by (subst string_of_nat.simps) (cases "string_of_nat (n div 10)"; simp add: string_of_nat.simps[of "n div 10"] split: if_splits)

lemma string_of_nat_inj: "string_of_nat a = string_of_nat b \<Longrightarrow> a = b"
proof (induction a arbitrary: b rule: string_of_nat.induct)
  case (1 n)
  show ?case
  proof (cases "n < 10")
    case True
    then have n: "string_of_nat n = [digit_char n]" by (subst string_of_nat.simps) simp
    have "b < 10"
    proof (rule ccontr)
      assume "\<not> b < 10"
      then have "2 \<le> length (string_of_nat b)" using string_of_nat_length by simp
      moreover have "length (string_of_nat b) = length (string_of_nat n)"
        using "1.prems" by simp
      ultimately show False using n by simp
    qed
    then have "string_of_nat b = [digit_char b]" by (subst string_of_nat.simps) simp
    then show ?thesis using digit_char_inj[OF True \<open>b < 10\<close>] "1.prems" n by simp
  next
    case False
    then have n: "string_of_nat n = string_of_nat (n div 10) @ [digit_char (n mod 10)]"
      by (subst string_of_nat.simps) simp
    have "\<not> b < 10"
    proof
      assume "b < 10"
      then have "string_of_nat b = [digit_char b]" by (subst string_of_nat.simps) simp
      then have "length (string_of_nat b) = 1" by simp
      moreover have "2 \<le> length (string_of_nat n)" using string_of_nat_length False by simp
      moreover have "length (string_of_nat b) = length (string_of_nat n)"
        using "1.prems" by simp
      ultimately show False by simp
    qed
    then have b: "string_of_nat b = string_of_nat (b div 10) @ [digit_char (b mod 10)]"
      by (subst string_of_nat.simps) simp
    from "1.prems" n b have "string_of_nat (n div 10) = string_of_nat (b div 10)"
      and d: "digit_char (n mod 10) = digit_char (b mod 10)" by simp_all
    then have "n div 10 = b div 10" using "1.IH"[OF False] by simp
    moreover have "n mod 10 = b mod 10" using digit_char_inj[OF _ _ d] by simp
    ultimately show ?thesis by (metis div_mult_mod_eq)
  qed
qed

text \<open>RenderText and RenderImage leave the counter alone; RenderLink never decreases it.\<close>

lemma RewriteLinkNode_cases:
  "(\<exists>s'. RewriteLinkNode s n a t i = Ok s') \<or> (\<exists>e s'. RewriteLinkNode s n a t i = Failed e s')"
  by (cases "RewriteLinkNode s n a t i") auto

lemma nextInlineID_RenderText: "nextInlineID (state_of (RenderText st ev)) = nextInlineID st"
  by (auto simp: RenderText_def rewrite_macro_def begin_section_def Let_def
      split: option.splits result.splits if_splits)

lemma nextInlineID_RenderImage: "nextInlineID (state_of (RenderImage st ev)) = nextInlineID st"
  by (auto simp: RenderImage_def Let_def split: option.splits)

lemma nextInlineID_RenderLink:
  "nextInlineID st \<le> nextInlineID (state_of (RenderLink render st ev))"
  by (auto simp: RenderLink_def Let_def split: result.splits)

lemma nextInlineID_render_event:
  "nextInlineID st \<le> nextInlineID (state_of (render_event render st ev))"
  by (cases "ntype (ast st ! event_node ev)")
     (simp_all add: render_event_def nextInlineID_RenderText nextInlineID_RenderImage
       nextInlineID_RenderLink)

lemma nextInlineID_render_loop:
  "render_loop fuel render st = Some r \<Longrightarrow> nextInlineID st \<le> nextInlineID (state_of r)"
proof (induction fuel arbitrary: st)
  case 0
  then show ?case by simp
next
  case (Suc fuel)
  let ?w = "snd (walker_next (ast st) (walker st))"
  show ?case
  proof (cases "fst (walker_next (ast st) (walker st))")
    case None
    then show ?thesis using Suc.prems by auto
  next
    case (Some ev)
    have step: "nextInlineID st \<le> nextInlineID (state_of (render_event render (st\<lparr>walker := ?w\<rparr>) ev))"
      using nextInlineID_render_event[of "st\<lparr>walker := ?w\<rparr>" render ev] by simp
    show ?thesis
    proof (cases "render_event render (st\<lparr>walker := ?w\<rparr>) ev")
      case (Ok st')
      then have "render_loop fuel render st' = Some r" using Suc.prems Some by simp
      from Suc.IH[OF this] step Ok show ?thesis by simp
    next
      case (Failed e st')
      then have "r = Failed e st'" using Suc.prems Some by simp
      then show ?thesis using step Failed by simp
    qed
  qed
qed

lemma nextInlineID_RenderFile:
  "RenderFile fuel render s r g = Some res \<Longrightarrow> nextInlineID g \<le> nextInlineID (counters_after res)"
  by (auto simp: RenderFile_def split: option.splits result.splits
      dest!: nextInlineID_render_loop)

lemma nextInlineID_compile_loop:
  "compile_loop fuel render files b = Some (Inr b') \<Longrightarrow>
     nextInlineID (counters b) \<le> nextInlineID (counters b')"
proof (induction files arbitrary: b)
  case Nil
  then show ?case by simp
next
  case (Cons f files)
  from Cons.prems obtain res where res:
    "RenderFile fuel render (file_nodes f) (file_root f) (counters b) = Some res"
    by (auto split: option.splits)
  note m = nextInlineID_RenderFile[OF res]
  show ?case
  proof (cases "returned res")
    case (Inl e)
    then have "compile_loop fuel render files
                 (b\<lparr>counters := counters_after res, errorCount := errorCount b + 1\<rparr>) = Some (Inr b')"
      using Cons.prems res by (auto split: if_splits)
    from Cons.IH[OF this] m show ?thesis by simp
  next
    case (Inr out)
    then have "compile_loop fuel render files
                 (b\<lparr>counters := counters_after res,
                    html := html b @ ''<!-- '' @ file_name f @ '' -->'' @ [CHR 0x0A]
                              @ out @ [CHR 0x0A]\<rparr>) = Some (Inr b')"
      using Cons.prems res by simp
    from Cons.IH[OF this] m show ?thesis by simp
  qed
qed

text \<open>RenderLink on leaving a link whose destination has the inline modifier.\<close>

lemma RenderLink_inline:
  assumes c: "children_are (ast st) p (xs @ n # ys)" and link: "ntype (ast st ! n) = Link"
    and ev: "event_node ev = n" "\<not> event_entering ev"
    and url: "decode_braces (destination (ast st ! n)) = CHR ''{'' # X @ '':inline}''"
    and colon: "CHR '':'' \<notin> set X"
  shows \<open>\<exists>st' t. RenderLink render st ev = Ok st' \<and>
           GetLinkText render (ast st) n = Some t \<and>
           children_are (ast st') p (xs @ length (ast st) # ys) \<and>
           content (ast st' ! length (ast st)) =
             (HtmlInline,
              ''<a href="#" id="_inline-'' @ string_of_nat (nextInlineID st)
                @ ''" data-replace-with="'' @ X @ ''">'' @ t @ ''</a>'', []) \<and>
           (\<forall>k<length (ast st). content (ast st' ! k) = content (ast st ! k)) \<and>
           nextInlineID st' = nextInlineID st + 1 \<and> sectionCount st' = sectionCount st \<and>
           walker st' = walker st\<close>
proof -
  have u: "decode_braces (destination (ast st ! n)) = CHR ''{'' # (X @ '':inline'') @ ''}''"
    using url by simp
  note b = braces_shape[OF u]
  have tok: "split_char CHR '':'' (X @ '':inline'') = [X, ''inline'']"
    using split_char_sep[OF colon, of "''inline''"] by simp
  obtain t where t: "GetLinkText render (ast st) n = Some t"
    using GetLinkText_Some[OF link] by blast
  let ?id = "''_inline-'' @ string_of_nat (nextInlineID st)"
  from RewriteLinkNode_children[OF c link refl, where id' = "Some ?id"
      and attrs = "[(''replace-with'', X)]" and t = t]
  obtain s' where s': "RewriteLinkNode (ast st) n [(''replace-with'', X)] (Some t) (Some ?id) = Ok s'"
    "children_are s' p (xs @ length (ast st) # ys)"
    "content (s' ! length (ast st)) =
       (HtmlInline, ''<a href=\"#\" id=\"'' @ ?id @ ''\"'' @ data_attrs [(''replace-with'', X)]
          @ ''>'' @ t @ ''</a>'', [])"
    "\<forall>k<length (ast st). content (s' ! k) = content (ast st ! k)" by auto
  have "RenderLink render st ev = Ok (st\<lparr>nextInlineID := nextInlineID st + 1, ast := s'\<rparr>)"
    using link ev b tok t s'(1) u
    by (simp add: RenderLink_def Let_def del: One_nat_def)
  then show ?thesis using t s'(2,3,4) by (auto simp: data_attrs_def)
qed

text \<open>
  Claim C10. A link whose destination is \<open>{X:inline}\<close>, for any \<open>X\<close> without colon,
  is rewritten on leaving it, whatever the sigil of \<open>X\<close>: the anchor has
  \<open>data-replace-with\<close> set to \<open>X\<close> and the id \<open>_inline-N\<close>, where \<open>N\<close> is
  the counter, which is then incremented. Without the modifier, the destination
  \<open>{X}\<close> fails with InvalidLinkMacro when \<open>X\<close> starts with \<open>$\<close> and with
  UnrecognizedMacro when it starts with none of the three sigils.
\<close>

theorem RenderLink_inline_any_identifier:
  assumes c: "children_are (ast st) p (xs @ n # ys)" and link: "ntype (ast st ! n) = Link"
    and ev: "event_node ev = n" "\<not> event_entering ev"
    and colon: "CHR '':'' \<notin> set X"
  shows \<open>(decode_braces (destination (ast st ! n)) = CHR ''{'' # X @ '':inline}'' \<longrightarrow>
            (\<exists>st' t. RenderLink render st ev = Ok st' \<and>
               GetLinkText render (ast st) n = Some t \<and>
               children_are (ast st') p (xs @ length (ast st) # ys) \<and>
               content (ast st' ! length (ast st)) =
                 (HtmlInline,
                  ''<a href="#" id="_inline-'' @ string_of_nat (nextInlineID st)
                    @ ''" data-replace-with="'' @ X @ ''">'' @ t @ ''</a>'', []) \<and>
               nextInlineID st' = nextInlineID st + 1)) \<and>
         (decode_braces (destination (ast st ! n)) = CHR ''{'' # X @ ''}'' \<longrightarrow>
            (\<forall>name. X = CHR ''$'' # name \<longrightarrow>
               RenderLink render st ev = Failed InvalidLinkMacro st) \<and>
            (X = [] \<or> (hd X \<noteq> CHR ''@'' \<and> hd X \<noteq> CHR ''#'' \<and> hd X \<noteq> CHR ''$'') \<longrightarrow>
               RenderLink render st ev = Failed UnrecognizedMacro st))\<close>
proof -
  have a: "\<exists>st' t. RenderLink render st ev = Ok st' \<and>
               GetLinkText render (ast st) n = Some t \<and>
               children_are (ast st') p (xs @ length (ast st) # ys) \<and>
               content (ast st' ! length (ast st)) =
                 (HtmlInline,
                  ''<a href=\"#\" id=\"_inline-'' @ string_of_nat (nextInlineID st)
                    @ ''\" data-replace-with=\"'' @ X @ ''\">'' @ t @ ''</a>'', []) \<and>
               nextInlineID st' = nextInlineID st + 1"
    if "decode_braces (destination (ast st ! n)) = CHR ''{'' # X @ '':inline}''"
    using RenderLink_inline[OF c link ev that colon, of render] by blast
  have b: "(\<forall>name. X = CHR ''$'' # name \<longrightarrow>
               RenderLink render st ev = Failed InvalidLinkMacro st) \<and>
            (X = [] \<or> (hd X \<noteq> CHR ''@'' \<and> hd X \<noteq> CHR ''#'' \<and> hd X \<noteq> CHR ''$'') \<longrightarrow>
               RenderLink render st ev = Failed UnrecognizedMacro st)"
    if u: "decode_braces (destination (ast st ! n)) = CHR ''{'' # X @ ''}''"
  proof -
    note p = RenderLink_plain[OF link ev u split_char_no_sep[OF colon], of render]
    show ?thesis using p by (cases X) (auto simp: char_at_def)
  qed
  from a b show ?thesis by blast
qed

text \<open>
  The theorem at \<open>{$var:inline}\<close> with the counter at 12 and at
  \<open>{what:inline}\<close> with the counter at 0, and at \<open>{$var}\<close> and \<open>{what}\<close>.
\<close>

theorem RenderLink_inline_any_identifier_witness:
  \<open>\<forall>render.
     (\<exists>st' t. RenderLink render ((start_state (link_document ''{$var:inline}''))\<lparr>nextInlineID := 12\<rparr>)
                  (leaving_event 2) = Ok st' \<and>
        GetLinkText render (link_document ''{$var:inline}'') 2 = Some t \<and>
        children_are (ast st') 1 [4] \<and>
        content (ast st' ! 4) =
          (HtmlInline, ''<a href="#" id="_inline-12" data-replace-with="$var">'' @ t @ ''</a>'', []) \<and>
        nextInlineID st' = 13) \<and>
     (\<exists>st' t. RenderLink render (start_state (link_document ''{what:inline}'')) (leaving_event 2) = Ok st' \<and>
        GetLinkText render (link_document ''{what:inline}'') 2 = Some t \<and>
        children_are (ast st') 1 [4] \<and>
        content (ast st' ! 4) =
          (HtmlInline, ''<a href="#" id="_inline-0" data-replace-with="what">'' @ t @ ''</a>'', []) \<and>
        nextInlineID st' = 1) \<and>
     RenderLink render (start_state (link_document ''{$var}'')) (leaving_event 2) =
       Failed InvalidLinkMacro (start_state (link_document ''{$var}'')) \<and>
     RenderLink render (start_state (link_document ''{what}'')) (leaving_event 2) =
       Failed UnrecognizedMacro (start_state (link_document ''{what}''))\<close>
proof -
  note f = link_document_facts
  have f12: "children_are (ast ((start_state (link_document d))\<lparr>nextInlineID := 12\<rparr>)) 1 ([] @ 2 # [])"
    "ntype (ast ((start_state (link_document d))\<lparr>nextInlineID := 12\<rparr>) ! 2) = Link" for d
    using f(1,2)[of d] by simp_all
  have dec: "decode_braces ''{$var:inline}'' = ''{$var:inline}''"
    "decode_braces ''{what:inline}'' = ''{what:inline}''"
    "decode_braces ''{$var}'' = ''{$var}''" "decode_braces ''{what}'' = ''{what}''"
    by (simp_all add: decode_braces_def)
  have n12: "string_of_nat 12 = ''12''" "string_of_nat 0 = ''0''"
    by code_simp+
  have a: "\<exists>st' t. RenderLink render ((start_state (link_document ''{$var:inline}''))\<lparr>nextInlineID := 12\<rparr>)
                  (leaving_event 2) = Ok st' \<and>
        GetLinkText render (link_document ''{$var:inline}'') 2 = Some t \<and>
        children_are (ast st') 1 [4] \<and>
        content (ast st' ! 4) =
          (HtmlInline, ''<a href=\"#\" id=\"_inline-12\" data-replace-with=\"$var\">'' @ t @ ''</a>'', []) \<and>
        nextInlineID st' = 13"
    for render
    using RenderLink_inline_any_identifier[where st = "(start_state (link_document ''{$var:inline}''))\<lparr>nextInlineID := 12\<rparr>"
        and render = render and X = "''$var''", OF f12 f(3,4)]
    by (simp add: f dec n12) (auto simp: start_state_def link_document_def)
  have b: "\<exists>st' t. RenderLink render (start_state (link_document ''{what:inline}'')) (leaving_event 2) = Ok st' \<and>
        GetLinkText render (link_document ''{what:inline}'') 2 = Some t \<and>
        children_are (ast st') 1 [4] \<and>
        content (ast st' ! 4) =
          (HtmlInline, ''<a href=\"#\" id=\"_inline-0\" data-replace-with=\"what\">'' @ t @ ''</a>'', []) \<and>
        nextInlineID st' = 1"
    for render
    using RenderLink_inline_any_identifier[where st = "start_state (link_document ''{what:inline}'')"
        and render = render and X = "''what''", OF f(1,2,3,4)]
    by (simp add: f dec n12) (auto simp: start_state_def n12)
  have d: "RenderLink render (start_state (link_document ''{$var}'')) (leaving_event 2) =
       Failed InvalidLinkMacro (start_state (link_document ''{$var}''))"
    for render
    using RenderLink_inline_any_identifier[where st = "start_state (link_document ''{$var}'')"
        and render = render and X = "''$var''", OF f(1,2,3,4)]
    by (simp add: f dec)
  have e: "RenderLink render (start_state (link_document ''{what}'')) (leaving_event 2) =
       Failed UnrecognizedMacro (start_state (link_document ''{what}''))"
    for render
    using RenderLink_inline_any_identifier[where st = "start_state (link_document ''{what}'')"
        and render = render and X = "''what''", OF f(1,2,3,4)]
    by (simp add: f dec)
  from a b d e show ?thesis by blast
qed

text \<open>
  Claim C7, as amended. On leaving a link whose destination is \<open>{#bar:inline}\<close>, the
  link is replaced by an anchor whose \<open>data-replace-with\<close> is \<open>#bar\<close>, the
  identifier with its sigil, and whose id is \<open>_inline-N\<close>, where \<open>N\<close> is the value
  of the counter, which is then \<open>N + 1\<close>. Different values of the counter give different
  ids, and nothing decreases the counter: no event of the loop of RenderFile, no call of
  RenderFile (whether the file fails or not) and no run of the loop of Compile. So the
  numbers of the inline links of one build are strictly increasing.
\<close>

theorem inline_ids_increase:
  assumes c: "children_are (ast st) p (xs @ n # ys)" and link: "ntype (ast st ! n) = Link"
    and ev: "event_node ev = n" "\<not> event_entering ev"
    and url: "decode_braces (destination (ast st ! n)) = ''{#bar:inline}''"
  shows \<open>(\<exists>st' t. RenderLink render st ev = Ok st' \<and>
            GetLinkText render (ast st) n = Some t \<and>
            children_are (ast st') p (xs @ length (ast st) # ys) \<and>
            content (ast st' ! length (ast st)) =
              (HtmlInline,
               ''<a href="#" id="_inline-'' @ string_of_nat (nextInlineID st)
                 @ ''" data-replace-with="#bar">'' @ t @ ''</a>'', []) \<and>
            nextInlineID st' = nextInlineID st + 1) \<and>
         (\<forall>a b. ''_inline-'' @ string_of_nat a = ''_inline-'' @ string_of_nat b \<longrightarrow> a = b) \<and>
         (\<forall>st1 ev1. nextInlineID st1 \<le> nextInlineID (state_of (render_event render st1 ev1))) \<and>
         (\<forall>fuel st1 r. render_loop fuel render st1 = Some r \<longrightarrow>
            nextInlineID st1 \<le> nextInlineID (state_of r)) \<and>
         (\<forall>fuel s r g res. RenderFile fuel render s r g = Some res \<longrightarrow>
            nextInlineID g \<le> nextInlineID (counters_after res)) \<and>
         (\<forall>fuel files b b'. compile_loop fuel render files b = Some (Inr b') \<longrightarrow>
            nextInlineID (counters b) \<le> nextInlineID (counters b'))\<close>
proof -
  have u: "decode_braces (destination (ast st ! n)) = CHR ''{'' # ''#bar'' @ '':inline}''"
    using url by simp
  have "\<exists>st' t. RenderLink render st ev = Ok st' \<and>
            GetLinkText render (ast st) n = Some t \<and>
            children_are (ast st') p (xs @ length (ast st) # ys) \<and>
            content (ast st' ! length (ast st)) =
              (HtmlInline,
               ''<a href=\"#\" id=\"_inline-'' @ string_of_nat (nextInlineID st)
                 @ ''\" data-replace-with=\"#bar\">'' @ t @ ''</a>'', []) \<and>
            nextInlineID st' = nextInlineID st + 1"
    using RenderLink_inline[OF c link ev u, of render] by auto
  moreover have "\<forall>a b. ''_inline-'' @ string_of_nat a = ''_inline-'' @ string_of_nat b \<longrightarrow> a = b"
    using string_of_nat_inj by simp
  ultimately show ?thesis
    using nextInlineID_render_event nextInlineID_render_loop nextInlineID_RenderFile
      nextInlineID_compile_loop by blast
qed

text \<open>
  The theorem at the link \<open>{#bar:inline}\<close>, as the parser stores it, with the counter
  at 0, and at a build of two files that each hold such a link: the counter is 2 after
  the build.
\<close>

lemma inline_build:
  "\<exists>b'. compile_loop 20 render two_inline
            \<lparr>counters = \<lparr>nextInlineID = 0, sectionCount = 0\<rparr>, errorCount = 0, html = []\<rparr>
          = Some (Inr b') \<and>
        counters b' = \<lparr>nextInlineID = 2, sectionCount = 0\<rparr> \<and> errorCount b' = 0"
  by (simp add: two_inline_def RenderFile_def eval_nat_numeral link_document_def render_eval
      store_eval string_eval Let_def find_macro.simps scan_macro.simps string_of_nat_small
      cong: eval_congs)

theorem inline_ids_increase_witness:
  \<open>\<forall>render.
     (\<exists>st' t. RenderLink render (start_state (link_document ''%7B#bar:inline%7D''))
                  (leaving_event 2) = Ok st' \<and>
        GetLinkText render (link_document ''%7B#bar:inline%7D'') 2 = Some t \<and>
        children_are (ast st') 1 [4] \<and>
        content (ast st' ! 4) =
          (HtmlInline, ''<a href="#" id="_inline-0" data-replace-with="#bar">'' @ t @ ''</a>'', []) \<and>
        nextInlineID st' = 1) \<and>
     (\<exists>b'. compile_loop 20 render two_inline
              \<lparr>counters = \<lparr>nextInlineID = 0, sectionCount = 0\<rparr>, errorCount = 0, html = []\<rparr>
            = Some (Inr b') \<and>
          nextInlineID (counters b') = 2 \<and>
          nextInlineID \<lparr>nextInlineID = 0, sectionCount = 0\<rparr> \<le> nextInlineID (counters b'))\<close>
proof -
  note f = link_document_facts
  have dec: "decode_braces ''%7B#bar:inline%7D'' = ''{#bar:inline}''"
    by (simp add: decode_braces_def)
  have u: "decode_braces (destination (ast (start_state (link_document ''%7B#bar:inline%7D'')) ! 2))
             = ''{#bar:inline}''"
    by (simp add: f dec)
  note t = inline_ids_increase[where st = "start_state (link_document ''%7B#bar:inline%7D'')",
      OF f(1,2,3,4) u]
  have a: "\<exists>st' t. RenderLink render (start_state (link_document ''%7B#bar:inline%7D''))
                  (leaving_event 2) = Ok st' \<and>
        GetLinkText render (link_document ''%7B#bar:inline%7D'') 2 = Some t \<and>
        children_are (ast st') 1 [4] \<and>
        content (ast st' ! 4) =
          (HtmlInline, ''<a href=\"#\" id=\"_inline-0\" data-replace-with=\"#bar\">'' @ t @ ''</a>'', []) \<and>
        nextInlineID st' = 1" for render
    using t[of render] by (simp add: f) (auto simp: start_state_def string_of_nat_small)
  have b: "\<exists>b'. compile_loop 20 render two_inline
              \<lparr>counters = \<lparr>nextInlineID = 0, sectionCount = 0\<rparr>, errorCount = 0, html = []\<rparr>
            = Some (Inr b') \<and>
          nextInlineID (counters b') = 2 \<and>
          nextInlineID \<lparr>nextInlineID = 0, sectionCount = 0\<rparr> \<le> nextInlineID (counters b')"
    for render
    using inline_build[of render] t[of render] by auto
  from a b show ?thesis by blast
qed

text \<open>
  Claim C7 as it is written fails: the attribute of the anchor for \<open>{#bar:inline}\<close> is
  \<open>#bar\<close>, not \<open>bar\<close>.
\<close>

theorem inline_link_keeps_sigil:
  \<open>\<forall>render. \<exists>st' t.
     RenderLink render (start_state (link_document ''%7B#bar:inline%7D'')) (leaving_event 2) = Ok st' \<and>
     GetLinkText render (link_document ''%7B#bar:inline%7D'') 2 = Some t \<and>
     literal (ast st' ! 4) = ''<a href="#" id="_inline-0" data-replace-with="#bar">'' @ t @ ''</a>'' \<and>
     literal (ast st' ! 4) \<noteq> ''<a href="#" id="_inline-0" data-replace-with="bar">'' @ t @ ''</a>''\<close>
proof -
  note f = link_document_facts
  have u: "decode_braces (destination (ast (start_state (link_document ''%7B#bar:inline%7D'')) ! 2))
             = CHR ''{'' # ''#bar'' @ '':inline}''"
    by (simp add: f decode_braces_def)
  have colon: "CHR '':'' \<notin> set ''#bar''" by simp
  have "\<exists>st' t.
     RenderLink render (start_state (link_document ''%7B#bar:inline%7D'')) (leaving_event 2) = Ok st' \<and>
     GetLinkText render (link_document ''%7B#bar:inline%7D'') 2 = Some t \<and>
     literal (ast st' ! 4) = ''<a href=\"#\" id=\"_inline-0\" data-replace-with=\"#bar\">'' @ t @ ''</a>'' \<and>
     literal (ast st' ! 4) \<noteq> ''<a href=\"#\" id=\"_inline-0\" data-replace-with=\"bar\">'' @ t @ ''</a>''"
    for render
    using RenderLink_inline[where st = "start_state (link_document ''%7B#bar:inline%7D'')"
        and render = render, OF f(1,2,3,4) u colon]
    by (simp add: f) (auto simp: start_state_def string_of_nat_small content_def)
  then show ?thesis by blast
qed

subsection \<open>Images\<close>

text \<open>
  RenderImage after its first statements: \<open>alt\<close> is the literal of the first child
  when that is a text node, and \<open>s1\<close> is the tree without that child.
\<close>

lemma RenderImage_cases:
  assumes img: "ntype (ast st ! n) = Image" and ev: "event_node ev = n"
    and kids: "children_are (ast st) n cs"
    and alt: "alt = (case cs of [] \<Rightarrow> [] | c # cs' \<Rightarrow>
                       if ntype (ast st ! c) = Text then literal (ast st ! c) else [])"
    and s1: "s1 = (case cs of [] \<Rightarrow> ast st | c # cs' \<Rightarrow>
                       if ntype (ast st ! c) = Text then unlink (ast st) c else ast st)"
    and url: "url = decode_braces (destination (ast st ! n))"
  shows \<open>char_at url 0 \<noteq> Some CHR ''{'' \<Longrightarrow>
      RenderImage st ev =
        (case replace_by_html s1 n
                (''<img src="'' @ url @ ''" alt="'' @ alt @ ''" title="'' @ alt @ ''">'') of
           None \<Rightarrow> Failed TypeError (st\<lparr>ast := s1\<rparr>)
         | Some s2 \<Rightarrow> Ok (st\<lparr>ast := s2, walker := resumeAt (walker st) (length s1)\<rparr>))\<close>
    and \<open>char_at url 0 = Some CHR ''{'' \<Longrightarrow> char_at url (length url - 1) \<noteq> Some CHR ''}'' \<Longrightarrow>
      RenderImage st ev = Failed UnterminatedMacro (st\<lparr>ast := s1\<rparr>)\<close>
    and \<open>char_at url 0 = Some CHR ''{'' \<Longrightarrow> char_at url (length url - 1) = Some CHR ''}'' \<Longrightarrow>
      char_at url 1 = Some CHR ''@'' \<Longrightarrow>
      RenderImage st ev = Failed SectionAsImageSource (st\<lparr>ast := s1\<rparr>)\<close>
    and \<open>char_at url 0 = Some CHR ''{'' \<Longrightarrow> char_at url (length url - 1) = Some CHR ''}'' \<Longrightarrow>
      char_at url 1 = Some CHR ''#'' \<or> char_at url 1 = Some CHR ''$'' \<Longrightarrow>
      RenderImage st ev =
        (case replace_by_html s1 n
                (''<img data-image-source-macro="'' @ substring url 1 (length url - 1)
                  @ ''" src="#" alt="'' @ alt @ ''" title="'' @ alt @ ''">'') of
           None \<Rightarrow> Failed TypeError (st\<lparr>ast := s1\<rparr>)
         | Some s2 \<Rightarrow> Ok (st\<lparr>ast := s2, walker := resumeAt (walker st) (length s1)\<rparr>))\<close>
    and \<open>char_at url 0 = Some CHR ''{'' \<Longrightarrow> char_at url (length url - 1) = Some CHR ''}'' \<Longrightarrow>
      char_at url 1 \<noteq> Some CHR ''@'' \<Longrightarrow> char_at url 1 \<noteq> Some CHR ''#'' \<Longrightarrow>
      char_at url 1 \<noteq> Some CHR ''$'' \<Longrightarrow>
      RenderImage st ev = Failed UnknownMacro (st\<lparr>ast := s1\<rparr>)\<close>
proof -
  have fc: "firstChild (ast st ! n) = (case cs of [] \<Rightarrow> None | c # cs' \<Rightarrow> Some c)"
    using kids by (simp add: children_are_def)
  have d: "destination (s1 ! n) = destination (ast st ! n)"
  proof -
    have "content (s1 ! n) = content (ast st ! n)" by (simp add: s1 split: list.splits)
    then show ?thesis by (simp add: content_def)
  qed
  define isText where "isText = (case cs of [] \<Rightarrow> False | c # cs' \<Rightarrow> ntype (ast st ! c) = Text)"
  have t: "(firstChild (ast st ! n) \<noteq> None \<and> ntype (ast st ! the (firstChild (ast st ! n))) = Text)
            = isText"
    by (simp add: fc isText_def split: list.splits)
  have a: "(if isText then literal (ast st ! the (firstChild (ast st ! n))) else []) = alt"
    by (simp add: fc isText_def alt split: list.splits)
  have s: "(if isText then unlink (ast st) (the (firstChild (ast st ! n))) else ast st) = s1"
    by (simp add: fc isText_def s1 split: list.splits)
  have u: "decode_braces (destination (s1 ! n)) = url"
    by (simp add: d url)
  note R = RenderImage_def [of st ev, unfolded Let_def ev t a s u]
  show \<open>char_at url 0 \<noteq> Some CHR ''{'' \<Longrightarrow>
      RenderImage st ev =
        (case replace_by_html s1 n
                (''<img src="'' @ url @ ''" alt="'' @ alt @ ''" title="'' @ alt @ ''">'') of
           None \<Rightarrow> Failed TypeError (st\<lparr>ast := s1\<rparr>)
         | Some s2 \<Rightarrow> Ok (st\<lparr>ast := s2, walker := resumeAt (walker st) (length s1)\<rparr>))\<close>
    unfolding R using img by simp
  show \<open>char_at url 0 = Some CHR ''{'' \<Longrightarrow> char_at url (length url - 1) \<noteq> Some CHR ''}'' \<Longrightarrow>
      RenderImage st ev = Failed UnterminatedMacro (st\<lparr>ast := s1\<rparr>)\<close>
    unfolding R using img by simp
  show \<open>char_at url 0 = Some CHR ''{'' \<Longrightarrow> char_at url (length url - 1) = Some CHR ''}'' \<Longrightarrow>
      char_at url 1 = Some CHR ''@'' \<Longrightarrow>
      RenderImage st ev = Failed SectionAsImageSource (st\<lparr>ast := s1\<rparr>)\<close>
    unfolding R using img by simp
  show \<open>char_at url 0 = Some CHR ''{'' \<Longrightarrow> char_at url (length url - 1) = Some CHR ''}'' \<Longrightarrow>
      char_at url 1 = Some CHR ''#'' \<or> char_at url 1 = Some CHR ''$'' \<Longrightarrow>
      RenderImage st ev =
        (case replace_by_html s1 n
                (''<img data-image-source-macro="'' @ substring url 1 (length url - 1)
                  @ ''" src="#" alt="'' @ alt @ ''" title="'' @ alt @ ''">'') of
           None \<Rightarrow> Failed TypeError (st\<lparr>ast := s1\<rparr>)
         | Some s2 \<Rightarrow> Ok (st\<lparr>ast := s2, walker := resumeAt (walker st) (length s1)\<rparr>))\<close>
    unfolding R using img by auto
  show \<open>char_at url 0 = Some CHR ''{'' \<Longrightarrow> char_at url (length url - 1) = Some CHR ''}'' \<Longrightarrow>
      char_at url 1 \<noteq> Some CHR ''@'' \<Longrightarrow> char_at url 1 \<noteq> Some CHR ''#'' \<Longrightarrow>
      char_at url 1 \<noteq> Some CHR ''$'' \<Longrightarrow>
      RenderImage st ev = Failed UnknownMacro (st\<lparr>ast := s1\<rparr>)\<close>
    unfolding R using img by simp
qed

text \<open>
  Claim C8. For an image node \<open>n\<close> among the children of \<open>p\<close>, with the children
  \<open>cs\<close> of its own: \<open>alt\<close> is the literal of the first child when that is a text
  node, else the empty string, and that child is removed from the image. The destination
  is read through the decoding of the first \<open>%7B\<close> and \<open>%7D\<close>. When it does not begin
  with \<open>{\<close>, the image is replaced among the children of its parent by an
  \<open>html_inline\<close> node \<open><img src="url" alt="alt" title="alt">\<close>, at which the walker
  is resumed. When it begins with \<open>{\<close> and does not end with \<open>}\<close>, the call fails
  with UnterminatedMacro. For a destination \<open>{ident}\<close>: the sigil \<open>@\<close> fails with
  SectionAsImageSource; with the sigil \<open>#\<close> or \<open>$\<close> the image is replaced by
  \<open><img data-image-source-macro="ident" src="#" alt="alt" title="alt">\<close>, where
  \<open>ident\<close> is all that stands between the braces, the sigil included; anything else
  fails with UnknownMacro.
\<close>

theorem RenderImage_rewrites:
  assumes c: "children_are (ast st) p (xs @ n # ys)" and img: "ntype (ast st ! n) = Image"
    and ev: "event_node ev = n"
    and kids: "children_are (ast st) n cs"
    and apart: "set cs \<inter> set (xs @ n # ys) = {}" "p \<notin> set cs"
    and alt: "alt = (case cs of [] \<Rightarrow> [] | c # cs' \<Rightarrow>
                       if ntype (ast st ! c) = Text then literal (ast st ! c) else [])"
    and url: "url = decode_braces (destination (ast st ! n))"
  shows
   \<open>(char_at url 0 \<noteq> Some CHR ''{'' \<longrightarrow>
       (\<exists>st'. RenderImage st ev = Ok st' \<and>
          children_are (ast st') p (xs @ length (ast st) # ys) \<and>
          content (ast st' ! length (ast st)) =
            (HtmlInline, ''<img src="'' @ url @ ''" alt="'' @ alt @ ''" title="'' @ alt @ ''">'', []) \<and>
          (\<forall>c cs'. cs = c # cs' \<and> ntype (ast st ! c) = Text \<longrightarrow> detached (ast st') c) \<and>
          walker st' = resumeAt (walker st) (length (ast st)) \<and>
          nextInlineID st' = nextInlineID st \<and> sectionCount st' = sectionCount st)) \<and>
    (char_at url 0 = Some CHR ''{'' \<and> char_at url (length url - 1) \<noteq> Some CHR ''}'' \<longrightarrow>
       (\<exists>st'. RenderImage st ev = Failed UnterminatedMacro st')) \<and>
    (\<forall>ident. url = CHR ''{'' # ident @ ''}'' \<longrightarrow>
       (\<forall>name. ident = CHR ''@'' # name \<longrightarrow>
          (\<exists>st'. RenderImage st ev = Failed SectionAsImageSource st')) \<and>
       (\<forall>name. ident = CHR ''#'' # name \<or> ident = CHR ''$'' # name \<longrightarrow>
          (\<exists>st'. RenderImage st ev = Ok st' \<and>
             children_are (ast st') p (xs @ length (ast st) # ys) \<and>
             content (ast st' ! length (ast st)) =
               (HtmlInline, ''<img data-image-source-macro="'' @ ident @ ''" src="#" alt="'' @ alt
                  @ ''" title="'' @ alt @ ''">'', []) \<and>
             (\<forall>c cs'. cs = c # cs' \<and> ntype (ast st ! c) = Text \<longrightarrow> detached (ast st') c) \<and>
             walker st' = resumeAt (walker st) (length (ast st)) \<and>
             nextInlineID st' = nextInlineID st \<and> sectionCount st' = sectionCount st)) \<and>
       (ident = [] \<or> (hd ident \<noteq> CHR ''@'' \<and> hd ident \<noteq> CHR ''#'' \<and> hd ident \<noteq> CHR ''$'') \<longrightarrow>
          (\<exists>st'. RenderImage st ev = Failed UnknownMacro st')))\<close>
proof -
  define s1 where "s1 = (case cs of [] \<Rightarrow> ast st | c # cs' \<Rightarrow>
                       if ntype (ast st ! c) = Text then unlink (ast st) c else ast st)"
  note R = RenderImage_cases[OF img ev kids alt s1_def url]
  have pn: "p \<noteq> n" "n \<notin> set cs"
    using c kids by (auto simp: children_are_def)
  have len: "length s1 = length (ast st)"
    by (simp add: s1_def split: list.splits)
  have c1: "children_are s1 p (xs @ n # ys)"
  proof (cases cs)
    case Nil
    then show ?thesis using c by (simp add: s1_def)
  next
    case (Cons a cs')
    have k: "children_are (ast st) n ([] @ a # cs')" using kids Cons by simp
    have "children_are (unlink (ast st) a) p (xs @ n # ys)"
    proof (rule children_unlink_other[OF k c])
      show "p \<noteq> n" by (rule pn)
      show "p \<notin> set ([] @ a # cs')" using apart Cons by simp
      show "set (xs @ n # ys) \<inter> set ([] @ a # cs') = {}" using apart Cons by auto
    qed
    then show ?thesis using c Cons by (simp add: s1_def)
  qed
  have gone: "detached s1 a \<and> a < length s1 \<and> a \<notin> insert p (set (xs @ n # ys))"
    if "cs = a # cs'" "ntype (ast st ! a) = Text" for a cs'
  proof -
    have k: "children_are (ast st) n ([] @ a # cs')" using kids that by simp
    have "a < length (ast st)" using children_in_range[OF kids, of a] that by simp
    then show ?thesis using detached_unlink[OF k] that apart by (auto simp: s1_def)
  qed
  have replaced: "\<exists>s2. replace_by_html s1 n lit = Some s2 \<and>
     children_are s2 p (xs @ length (ast st) # ys) \<and>
     content (s2 ! length (ast st)) = (HtmlInline, lit, []) \<and>
     (\<forall>a cs'. cs = a # cs' \<and> ntype (ast st ! a) = Text \<longrightarrow> detached s2 a)" for lit
  proof -
    obtain s2 where s2: "replace_by_html s1 n lit = Some s2"
        "children_are s2 p (xs @ length s1 # ys)"
        "content (s2 ! length s1) = (HtmlInline, lit, [])"
        "\<forall>k<length s1. k \<notin> insert p (set (xs @ n # ys)) \<longrightarrow> s2 ! k = s1 ! k"
      using children_replace_by_html[OF c1, of lit] by blast
    have "detached s2 a" if "cs = a # cs'" "ntype (ast st ! a) = Text" for a cs'
    proof -
      have "s2 ! a = s1 ! a" using gone[OF that] s2(4) by blast
      then show ?thesis using gone[OF that] by (simp add: detached_def)
    qed
    then show ?thesis using s2 len by auto
  qed
  have ok: "\<exists>st'. r = Ok st' \<and>
          children_are (ast st') p (xs @ length (ast st) # ys) \<and>
          content (ast st' ! length (ast st)) = (HtmlInline, lit, []) \<and>
          (\<forall>c cs'. cs = c # cs' \<and> ntype (ast st ! c) = Text \<longrightarrow> detached (ast st') c) \<and>
          walker st' = resumeAt (walker st) (length (ast st)) \<and>
          nextInlineID st' = nextInlineID st \<and> sectionCount st' = sectionCount st"
    if "r = (case replace_by_html s1 n lit of
           None \<Rightarrow> Failed TypeError (st\<lparr>ast := s1\<rparr>)
         | Some s2 \<Rightarrow> Ok (st\<lparr>ast := s2, walker := resumeAt (walker st) (length s1)\<rparr>))" for r lit
  proof -
    obtain s2 where s2: "replace_by_html s1 n lit = Some s2"
        "children_are s2 p (xs @ length (ast st) # ys)"
        "content (s2 ! length (ast st)) = (HtmlInline, lit, [])"
        "\<forall>a cs'. cs = a # cs' \<and> ntype (ast st ! a) = Text \<longrightarrow> detached s2 a"
      using replaced[of lit] by blast
    show ?thesis using that s2 len by simp
  qed
  have plain: "char_at url 0 \<noteq> Some CHR ''{'' \<longrightarrow>
       (\<exists>st'. RenderImage st ev = Ok st' \<and>
          children_are (ast st') p (xs @ length (ast st) # ys) \<and>
          content (ast st' ! length (ast st)) =
            (HtmlInline, ''<img src=\"'' @ url @ ''\" alt=\"'' @ alt @ ''\" title=\"'' @ alt @ ''\">'', []) \<and>
          (\<forall>c cs'. cs = c # cs' \<and> ntype (ast st ! c) = Text \<longrightarrow> detached (ast st') c) \<and>
          walker st' = resumeAt (walker st) (length (ast st)) \<and>
          nextInlineID st' = nextInlineID st \<and> sectionCount st' = sectionCount st)"
    using ok[OF R(1)] by blast
  have unterminated: "char_at url 0 = Some CHR ''{'' \<and> char_at url (length url - 1) \<noteq> Some CHR ''}'' \<longrightarrow>
       (\<exists>st'. RenderImage st ev = Failed UnterminatedMacro st')"
    using R(2) by blast
  have macro: "(\<forall>name. ident = CHR ''@'' # name \<longrightarrow>
          (\<exists>st'. RenderImage st ev = Failed SectionAsImageSource st')) \<and>
       (\<forall>name. ident = CHR ''#'' # name \<or> ident = CHR ''$'' # name \<longrightarrow>
          (\<exists>st'. RenderImage st ev = Ok st' \<and>
             children_are (ast st') p (xs @ length (ast st) # ys) \<and>
             content (ast st' ! length (ast st)) =
               (HtmlInline, ''<img data-image-source-macro=\"'' @ ident @ ''\" src=\"#\" alt=\"'' @ alt
                  @ ''\" title=\"'' @ alt @ ''\">'', []) \<and>
             (\<forall>c cs'. cs = c # cs' \<and> ntype (ast st ! c) = Text \<longrightarrow> detached (ast st') c) \<and>
             walker st' = resumeAt (walker st) (length (ast st)) \<and>
             nextInlineID st' = nextInlineID st \<and> sectionCount st' = sectionCount st)) \<and>
       (ident = [] \<or> (hd ident \<noteq> CHR ''@'' \<and> hd ident \<noteq> CHR ''#'' \<and> hd ident \<noteq> CHR ''$'') \<longrightarrow>
          (\<exists>st'. RenderImage st ev = Failed UnknownMacro st'))"
    if u: "url = CHR ''{'' # ident @ ''}''" for ident
  proof -
    note b = braces_shape[OF u]
    have sig: "char_at url 1 = Some (hd (ident @ ''}''))"
      using u by (cases ident) (simp_all add: char_at_def)
    have a: "\<exists>st'. RenderImage st ev = Failed SectionAsImageSource st'"
      if "ident = CHR ''@'' # name" for name
      using R(3)[OF b(1) b(2)] sig that by simp
    have h: "\<exists>st'. RenderImage st ev = Ok st' \<and>
             children_are (ast st') p (xs @ length (ast st) # ys) \<and>
             content (ast st' ! length (ast st)) =
               (HtmlInline, ''<img data-image-source-macro=\"'' @ ident @ ''\" src=\"#\" alt=\"'' @ alt
                  @ ''\" title=\"'' @ alt @ ''\">'', []) \<and>
             (\<forall>c cs'. cs = c # cs' \<and> ntype (ast st ! c) = Text \<longrightarrow> detached (ast st') c) \<and>
             walker st' = resumeAt (walker st) (length (ast st)) \<and>
             nextInlineID st' = nextInlineID st \<and> sectionCount st' = sectionCount st"
      if "ident = CHR ''#'' # name \<or> ident = CHR ''$'' # name" for name
    proof -
      have "char_at url 1 = Some CHR ''#'' \<or> char_at url 1 = Some CHR ''$''"
        using sig that by auto
      from ok[OF R(4)[OF b(1) b(2) this]] show ?thesis by (simp only: b(3))
    qed
    have o: "\<exists>st'. RenderImage st ev = Failed UnknownMacro st'"
      if "ident = [] \<or> (hd ident \<noteq> CHR ''@'' \<and> hd ident \<noteq> CHR ''#'' \<and> hd ident \<noteq> CHR ''$'')"
    proof -
      have "char_at url 1 \<noteq> Some CHR ''@'' \<and> char_at url 1 \<noteq> Some CHR ''#''
              \<and> char_at url 1 \<noteq> Some CHR ''$''"
        using sig that by (cases ident) auto
      then show ?thesis using R(5)[OF b(1) b(2)] by blast
    qed
    show ?thesis using a h o by blast
  qed
  show ?thesis using plain unterminated macro by blast
qed

lemma image_document_facts:
  "children_are (ast (start_state (image_document d))) 1 ([] @ 2 # [])"
  "ntype (ast (start_state (image_document d)) ! 2) = Image"
  "event_node (entering_event 2) = 2"
  "children_are (ast (start_state (image_document d))) 2 [3]"
  "set [3] \<inter> set ([] @ 2 # []) = ({} :: nat set)"
  "(1 :: nat) \<notin> set [3]"
  "''pic'' = (case [3] of [] \<Rightarrow> [] | c # cs' \<Rightarrow>
                if ntype (ast (start_state (image_document d)) ! c) = Text
                then literal (ast (start_state (image_document d)) ! c) else [])"
  "destination (ast (start_state (image_document d)) ! 2) = d"
  "length (ast (start_state (image_document d))) = 4"
  by (simp_all add: children_are_def start_state_def image_document_def entering_event_def)

text \<open>
  The theorem at an image with the description \<open>pic\<close> in a paragraph, for the
  destinations \<open>{$face}\<close> (as the parser stores it), \<open>a.png\<close>, \<open>{@Foo}\<close>,
  \<open>{#f\<close> and \<open>{face}\<close>.
\<close>

theorem RenderImage_rewrites_witness:
  \<open>(\<exists>st'. RenderImage (start_state (image_document ''%7B$face%7D'')) (entering_event 2) = Ok st' \<and>
       children_are (ast st') 1 [4] \<and>
       content (ast st' ! 4) =
         (HtmlInline, ''<img data-image-source-macro="$face" src="#" alt="pic" title="pic">'', []) \<and>
       detached (ast st') 3) \<and>
    (\<exists>st'. RenderImage (start_state (image_document ''a.png'')) (entering_event 2) = Ok st' \<and>
       children_are (ast st') 1 [4] \<and>
       content (ast st' ! 4) = (HtmlInline, ''<img src="a.png" alt="pic" title="pic">'', []) \<and>
       detached (ast st') 3) \<and>
    (\<exists>st'. RenderImage (start_state (image_document ''{@Foo}'')) (entering_event 2)
       = Failed SectionAsImageSource st') \<and>
    (\<exists>st'. RenderImage (start_state (image_document ''{#f'')) (entering_event 2)
       = Failed UnterminatedMacro st') \<and>
    (\<exists>st'. RenderImage (start_state (image_document ''{face}'')) (entering_event 2)
       = Failed UnknownMacro st')\<close>
proof -
  note f = image_document_facts
  have dec: "decode_braces ''%7B$face%7D'' = ''{$face}''" "decode_braces ''a.png'' = ''a.png''"
    "decode_braces ''{@Foo}'' = ''{@Foo}''" "decode_braces ''{#f'' = ''{#f''"
    "decode_braces ''{face}'' = ''{face}''"
    by (simp_all add: decode_braces_def)
  have leaf: "ntype (ast (start_state (image_document d)) ! 3) = Text" for d
    by (simp add: start_state_def image_document_def)
  have a: "\<exists>st'. RenderImage (start_state (image_document ''%7B$face%7D'')) (entering_event 2) = Ok st' \<and>
       children_are (ast st') 1 [4] \<and>
       content (ast st' ! 4) =
         (HtmlInline, ''<img data-image-source-macro=\"$face\" src=\"#\" alt=\"pic\" title=\"pic\">'', []) \<and>
       detached (ast st') 3"
    using RenderImage_rewrites[where st = "start_state (image_document ''%7B$face%7D'')",
        OF f(1,2,3,4,5,6,7) refl]
    by (simp add: f dec leaf char_at_def) blast
  have b: "\<exists>st'. RenderImage (start_state (image_document ''a.png'')) (entering_event 2) = Ok st' \<and>
       children_are (ast st') 1 [4] \<and>
       content (ast st' ! 4) = (HtmlInline, ''<img src=\"a.png\" alt=\"pic\" title=\"pic\">'', []) \<and>
       detached (ast st') 3"
    using RenderImage_rewrites[where st = "start_state (image_document ''a.png'')",
        OF f(1,2,3,4,5,6,7) refl]
    by (simp add: f dec leaf char_at_def) blast
  have c: "\<exists>st'. RenderImage (start_state (image_document ''{@Foo}'')) (entering_event 2)
       = Failed SectionAsImageSource st'"
    using RenderImage_rewrites[where st = "start_state (image_document ''{@Foo}'')",
        OF f(1,2,3,4,5,6,7) refl]
    by (simp add: f dec char_at_def)
  have d: "\<exists>st'. RenderImage (start_state (image_document ''{#f'')) (entering_event 2)
       = Failed UnterminatedMacro st'"
    using RenderImage_rewrites[where st = "start_state (image_document ''{#f'')",
        OF f(1,2,3,4,5,6,7) refl]
    by (simp add: f dec char_at_def)
  have e: "\<exists>st'. RenderImage (start_state (image_document ''{face}'')) (entering_event 2)
       = Failed UnknownMacro st'"
    using RenderImage_rewrites[where st = "start_state (image_document ''{face}'')",
        OF f(1,2,3,4,5,6,7) refl]
    by (simp add: f dec char_at_def)
  from a b c d e show ?thesis by blast
qed

text \<open>
  Claim C8 as it is written fails at its example: the attribute of the image for the
  destination \<open>{#bar}\<close> is \<open>#bar\<close>, not \<open>bar\<close>.
\<close>

theorem image_macro_keeps_sigil:
  \<open>\<exists>st'. RenderImage (start_state (image_document ''{#bar}'')) (entering_event 2) = Ok st' \<and>
     literal (ast st' ! 4) = ''<img data-image-source-macro="#bar" src="#" alt="pic" title="pic">'' \<and>
     literal (ast st' ! 4) \<noteq> ''<img data-image-source-macro="bar" src="#" alt="pic" title="pic">''\<close>
  by (simp add: start_state_def image_document_def entering_event_def render_eval store_eval
      string_eval Let_def cong: eval_congs)

subsection \<open>Sections\<close>

text \<open>
  The section branch for the first child \<open>n\<close> of a paragraph \<open>par\<close> among the
  children of \<open>g\<close>: the new node takes the place of the paragraph.
\<close>

lemma begin_section_children:
  assumes leaf: "children_are (ast st) par (n # zs)"
    and par: "ntype (ast st ! par) = Paragraph"
    and c: "children_are (ast st) g (xs @ par # ys)"
    and lit: \<open>lit = (if sectionCount st > 0 then ''</div>'' @ [CHR 0x0A] else [])
                    @ ''<div id="'' @ substring macro 2 (length macro - 2)
                    @ ''" class="section" hidden="true">''\<close>
  shows "\<exists>s'. begin_section st n macro =
             Ok (st\<lparr>ast := s', sectionCount := sectionCount st + 1,
                    walker := resumeAt (walker st) (length (ast st))\<rparr>) \<and>
           length s' = Suc (length (ast st)) \<and>
           children_are s' g (xs @ length (ast st) # ys) \<and>
           content (s' ! length (ast st)) = (HtmlInline, lit, []) \<and>
           (\<forall>k<length (ast st). content (s' ! k) = content (ast st ! k))"
proof -
  let ?s = "ast st"
  let ?h = "length ?s"
  define s1 where "s1 = alloc ?s (new_node HtmlInline lit)"
  have leaf': "children_are ?s par ([] @ n # zs)" using leaf by simp
  have n: "n < ?h" "parent (?s ! n) = Some par" "prev (?s ! n) = None"
    using children_split(2,3,4)[OF leaf'] by simp_all
  have parlt: "par < ?h" using children_split(2)[OF c] .
  have c1: "children_are s1 g (xs @ par # ys)"
    unfolding s1_def by (rule children_alloc[OF c])
  have old: "s1 ! k = ?s ! k" if "k < ?h" for k
    using that by (simp add: s1_def alloc_new)
  have h: "?h < length s1" "detached s1 ?h"
    by (simp_all add: s1_def alloc_new)
  have h2: "?h \<notin> set (xs @ par # ys)" "?h \<noteq> g"
    using children_split(1,10)[OF c] by auto
  obtain s2 where s2: "insertAfter s1 par ?h = Some s2" "length s2 = length s1"
      "children_are s2 g (xs @ par # ?h # ys)"
    using children_insertAfter[OF c1 h h2] by blast
  have c3: "children_are (unlink s2 par) g (xs @ ?h # ys)"
    using children_unlink[OF s2(3)] .
  have "content (unlink s2 par ! ?h) = content (s1 ! ?h)"
    using content_insertAfter[OF s2(1), of ?h] by simp
  then have cont: "content (unlink s2 par ! ?h) = (HtmlInline, lit, [])"
    by (simp add: s1_def content_alloc_new)
  have keep: "content (unlink s2 par ! k) = content (?s ! k)" if "k < ?h" for k
    using content_insertAfter[OF s2(1), of k] that by (simp add: s1_def content_alloc_old)
  note B = begin_section_def[of st n macro, unfolded Let_def lit[symmetric] s1_def[symmetric]]
  have "begin_section st n macro =
          Ok (st\<lparr>ast := unlink s2 par, sectionCount := sectionCount st + 1,
                 walker := resumeAt (walker st) ?h\<rparr>)"
    unfolding B using n parlt par s2(1) old[of n] old[of par] by simp
  then show ?thesis using c3 cont s2(2) keep by (auto simp: s1_def alloc_new)
qed

text \<open>The closing node becomes the last child of the root.\<close>

lemma close_final_section_children:
  assumes c: "children_are s r cs"
  shows "children_are (close_final_section s r) r (cs @ [length s])"
    and "content (close_final_section s r ! length s) = (HtmlInline, ''</div>'', [])"
    and "length (close_final_section s r) = Suc (length s)"
    and "\<forall>k<length s. content (close_final_section s r ! k) = content (s ! k)"
proof -
  let ?s1 = "alloc s (new_node HtmlInline ''</div>'')"
  have e: "close_final_section s r = appendChild ?s1 r (length s)"
    by (simp add: close_final_section_def walker_next_def new_walker_def)
  have h: "length s < length ?s1" "detached ?s1 (length s)"
    by (simp_all add: alloc_new)
  have h2: "length s \<notin> set cs" "length s \<noteq> r"
    using children_in_range[OF c, of "length s"] c by (auto simp: children_are_def)
  show "children_are (close_final_section s r) r (cs @ [length s])"
    unfolding e by (rule children_appendChild[OF children_alloc[OF c] h h2])
  show "content (close_final_section s r ! length s) = (HtmlInline, ''</div>'', [])"
    unfolding e by (simp add: content_alloc_new)
  show "length (close_final_section s r) = Suc (length s)"
    unfolding e by (simp add: alloc_new)
  show "\<forall>k<length s. content (close_final_section s r ! k) = content (s ! k)"
    unfolding e by (simp add: content_alloc_old)
qed

text \<open>
  Claim C4. When the loop of RenderText reaches an opening brace in the literal of a
  leaf \<open>n\<close> and the token that starts there has a second opening brace, and \<open>n\<close> is
  the first child of a paragraph \<open>par\<close>, then RenderText succeeds: among the children
  of the paragraph's parent, the paragraph is replaced by a new \<open>html_inline\<close> node.
  Its literal is \<open><div id="id" class="section" hidden="true">\<close>, where \<open>id\<close> is the
  token without its first two and its last two characters, preceded by \<open></div>\<close> and a
  newline when \<open>sectionCount\<close> is not zero; \<open>sectionCount\<close> is then incremented and
  the walker resumed at the new node. RenderFile sets \<open>sectionCount\<close> to zero before its
  second loop, so that its result does not depend on the value that the counter had; and
  after the loop it appends one \<open>html_inline\<close> node \<open></div>\<close> as the last child of
  the root of the tree.
\<close>

theorem section_markup:
  assumes leaf: "children_are (ast st) par (n # zs)"
    and par: "ntype (ast st ! par) = Paragraph"
    and c: "children_are (ast st) g (xs @ par # ys)"
    and ev: "event_node ev = n"
    and found: "find_macro (literal (ast st ! n)) 0 = Some i"
    and scan: "scan_macro (literal (ast st ! n)) i (i + 1) 1 = Some macro"
    and sec: "char_at macro 1 = Some CHR ''{''"
    and root: "children_are s r cs"
  shows
   \<open>(\<exists>st'. RenderText st ev = Ok st' \<and>
       children_are (ast st') g (xs @ length (ast st) # ys) \<and>
       content (ast st' ! length (ast st)) =
         (HtmlInline,
          (if sectionCount st = 0 then [] else ''</div>'' @ [CHR 0x0A])
            @ ''<div id="'' @ substring macro 2 (length macro - 2)
            @ ''" class="section" hidden="true">'', []) \<and>
       (\<forall>ident. macro = ''{{'' @ ident @ ''}}'' \<longrightarrow> substring macro 2 (length macro - 2) = ident) \<and>
       sectionCount st' = sectionCount st + 1 \<and> nextInlineID st' = nextInlineID st \<and>
       walker st' = resumeAt (walker st) (length (ast st))) \<and>
    RenderFile fuel render s r (gl\<lparr>sectionCount := k\<rparr>) = RenderFile fuel render s r gl \<and>
    children_are (close_final_section s r) r (cs @ [length s]) \<and>
    content (close_final_section s r ! length s) = (HtmlInline, ''</div>'', []) \<and>
    length (close_final_section s r) = Suc (length s) \<and>
    (\<forall>k<length s. content (close_final_section s r ! k) = content (s ! k))\<close>
proof -
  let ?h = "length (ast st)"
  let ?lit = \<open>(if sectionCount st > 0 then ''</div>'' @ [CHR 0x0A] else [])
                    @ ''<div id="'' @ substring macro 2 (length macro - 2)
                    @ ''" class="section" hidden="true">''\<close>
  obtain s' where s': "begin_section st n macro =
             Ok (st\<lparr>ast := s', sectionCount := sectionCount st + 1,
                    walker := resumeAt (walker st) ?h\<rparr>)"
      "length s' = Suc ?h" "children_are s' g (xs @ ?h # ys)"
      "content (s' ! ?h) = (HtmlInline, ?lit, [])"
    using begin_section_children[OF leaf par c refl, of macro] by blast
  have n: "n < ?h" using children_in_range[OF leaf, of n] by simp
  define st' where "st' = st\<lparr>ast := set_literal s' n (strip_backslashes (literal (s' ! n))),
      sectionCount := sectionCount st + 1, walker := resumeAt (walker st) ?h\<rparr>"
  have "rewrite_macro st n i = begin_section st n macro"
    using scan sec by (simp add: rewrite_macro_def)
  then have rt: "RenderText st ev = Ok st'"
    using ev found s'(1) by (simp add: RenderText_def st'_def)
  have a: "children_are (ast st') g (xs @ ?h # ys)"
    unfolding st'_def using children_set_literal[OF s'(3)] by simp
  have b: "content (ast st' ! ?h) = (HtmlInline, ?lit, [])"
    unfolding st'_def using s'(4) n by (simp add: content_set_literal)
  have l: "?lit = (if sectionCount st = 0 then [] else ''</div>'' @ [CHR 0x0A])
            @ ''<div id=\"'' @ substring macro 2 (length macro - 2)
            @ ''\" class=\"section\" hidden=\"true\">''"
    by simp
  have id: "substring macro 2 (length macro - 2) = ident" if "macro = ''{{'' @ ident @ ''}}''"
    for ident using that by (simp add: substring_def)
  have sect: "\<exists>st'. RenderText st ev = Ok st' \<and>
       children_are (ast st') g (xs @ length (ast st) # ys) \<and>
       content (ast st' ! length (ast st)) =
         (HtmlInline,
          (if sectionCount st = 0 then [] else ''</div>'' @ [CHR 0x0A])
            @ ''<div id=\"'' @ substring macro 2 (length macro - 2)
            @ ''\" class=\"section\" hidden=\"true\">'', []) \<and>
       (\<forall>ident. macro = ''{{'' @ ident @ ''}}'' \<longrightarrow> substring macro 2 (length macro - 2) = ident) \<and>
       sectionCount st' = sectionCount st + 1 \<and> nextInlineID st' = nextInlineID st \<and>
       walker st' = resumeAt (walker st) (length (ast st))"
    using rt a b[unfolded l] id by (auto simp: st'_def)
  have reset: "RenderFile fuel render s r (gl\<lparr>sectionCount := k\<rparr>) = RenderFile fuel render s r gl"
    by (simp add: RenderFile_def cong: option.case_cong)
  show ?thesis using sect reset close_final_section_children[OF root] by blast
qed

lemma two_paragraphs_facts:
  "children_are (ast (start_state (two_paragraphs a b))) 1 [2]"
  "children_are (ast (start_state (two_paragraphs a b))) 3 [4]"
  "ntype (ast (start_state (two_paragraphs a b)) ! 1) = Paragraph"
  "ntype (ast (start_state (two_paragraphs a b)) ! 3) = Paragraph"
  "children_are (ast (start_state (two_paragraphs a b))) 0 ([] @ 1 # [3])"
  "children_are (ast (start_state (two_paragraphs a b))) 0 ([1] @ 3 # [])"
  "literal (ast (start_state (two_paragraphs a b)) ! 2) = a"
  "literal (ast (start_state (two_paragraphs a b)) ! 4) = b"
  "children_are (two_paragraphs a b) 0 [1, 3]"
  "length (two_paragraphs a b) = 5"
  by (simp_all add: children_are_def start_state_def two_paragraphs_def)

lemma start_state_facts:
  "event_node (entering_event n) = n"
  "ast (start_state s) = s" "sectionCount (start_state s) = 0"
  "nextInlineID (start_state s) = 0"
  by (simp_all add: start_state_def entering_event_def)

text \<open>
  RenderFile on the document with the paragraphs \<open>{{A}}\<close> and \<open>{{B}}\<close>, called with
  the counter at 5: the tree that is handed to the renderer has three nodes below the
  root, the two section nodes and the closing one.
\<close>

lemma two_sections_build:
  \<open>\<exists>s'. RenderFile 12 render (two_paragraphs ''{{A}}'' ''{{B}}'') 0
            \<lparr>nextInlineID = 0, sectionCount = 5\<rparr>
          = Some \<lparr>returned = Inr (render s' 0),
                  counters_after = \<lparr>nextInlineID = 0, sectionCount = 2\<rparr>\<rparr> \<and>
        children_are s' 0 [5, 6, 7] \<and>
        map literal s' =
          [[], [], ''{{A}}'', [], ''{{B}}'',
           ''<div id="A" class="section" hidden="true">'',
           ''</div>'' @ [CHR 0x0A] @ ''<div id="B" class="section" hidden="true">'',
           ''</div>'']\<close>
  apply (rule exI[where x = \<open>
     [\<lparr>ntype = Document, literal = [], destination = [], parent = None,
       firstChild = Some 5, lastChild = Some 7, prev = None, next_sibling = None\<rparr>,
      \<lparr>ntype = Paragraph, literal = [], destination = [], parent = None,
       firstChild = Some 2, lastChild = Some 2, prev = None, next_sibling = None\<rparr>,
      \<lparr>ntype = Text, literal = ''{{A}}'', destination = [], parent = Some 1,
       firstChild = None, lastChild = None, prev = None, next_sibling = None\<rparr>,
      \<lparr>ntype = Paragraph, literal = [], destination = [], parent = None,
       firstChild = Some 4, lastChild = Some 4, prev = None, next_sibling = None\<rparr>,
      \<lparr>ntype = Text, literal = ''{{B}}'', destination = [], parent = Some 3,
       firstChild = None, lastChild = None, prev = None, next_sibling = None\<rparr>,
      \<lparr>ntype = HtmlInline, literal = ''<div id="A" class="section" hidden="true">'',
       destination = [], parent = Some 0,
       firstChild = None, lastChild = None, prev = None, next_sibling = Some 6\<rparr>,
      \<lparr>ntype = HtmlInline,
       literal = ''</div>'' @ [CHR 0x0A] @ ''<div id="B" class="section" hidden="true">'',
       destination = [], parent = Some 0,
       firstChild = None, lastChild = None, prev = Some 5, next_sibling = Some 7\<rparr>,
      \<lparr>ntype = HtmlInline, literal = ''</div>'', destination = [], parent = Some 0,
       firstChild = None, lastChild = None, prev = Some 6, next_sibling = None\<rparr>]\<close>])
  apply (simp add: two_paragraphs_def RenderFile_def eval_nat_numeral render_eval
      store_eval string_eval Let_def find_macro.simps scan_macro.simps children_are_def
      cong: eval_congs)
  done

text \<open>
  The theorem at the document with the paragraphs \<open>{{A}}\<close> and \<open>{{B}}\<close>: at the
  first text with the counter at 0, at the second text with the counter at 1, and for
  RenderFile called with the counter at 5; then the whole of RenderFile.
\<close>

theorem section_markup_witness:
  \<open>\<forall>render.
     (\<exists>st'. RenderText (start_state (two_paragraphs ''{{A}}'' ''{{B}}'')) (entering_event 2) = Ok st' \<and>
        children_are (ast st') 0 [5, 3] \<and>
        content (ast st' ! 5) = (HtmlInline, ''<div id="A" class="section" hidden="true">'', []) \<and>
        sectionCount st' = 1) \<and>
     (\<exists>st'. RenderText ((start_state (two_paragraphs ''{{A}}'' ''{{B}}''))\<lparr>sectionCount := 1\<rparr>)
                (entering_event 4) = Ok st' \<and>
        children_are (ast st') 0 [1, 5] \<and>
        content (ast st' ! 5) =
          (HtmlInline, ''</div>'' @ [CHR 0x0A] @ ''<div id="B" class="section" hidden="true">'', []) \<and>
        sectionCount st' = 2) \<and>
     RenderFile 12 render (two_paragraphs ''{{A}}'' ''{{B}}'') 0 \<lparr>nextInlineID = 0, sectionCount = 5\<rparr>
       = RenderFile 12 render (two_paragraphs ''{{A}}'' ''{{B}}'') 0 \<lparr>nextInlineID = 0, sectionCount = 0\<rparr> \<and>
     children_are (close_final_section (two_paragraphs ''{{A}}'' ''{{B}}'') 0) 0 [1, 3, 5] \<and>
     content (close_final_section (two_paragraphs ''{{A}}'' ''{{B}}'') 0 ! 5) = (HtmlInline, ''</div>'', []) \<and>
     (\<exists>s'. RenderFile 12 render (two_paragraphs ''{{A}}'' ''{{B}}'') 0
              \<lparr>nextInlineID = 0, sectionCount = 5\<rparr>
            = Some \<lparr>returned = Inr (render s' 0),
                    counters_after = \<lparr>nextInlineID = 0, sectionCount = 2\<rparr>\<rparr> \<and>
          children_are s' 0 [5, 6, 7] \<and>
          map literal s' =
            [[], [], ''{{A}}'', [], ''{{B}}'',
             ''<div id="A" class="section" hidden="true">'',
             ''</div>'' @ [CHR 0x0A] @ ''<div id="B" class="section" hidden="true">'',
             ''</div>''])\<close>
proof -
  let ?doc = "two_paragraphs ''{{A}}'' ''{{B}}''"
  note f = two_paragraphs_facts[where a = "''{{A}}''" and b = "''{{B}}''"]
  note g = start_state_facts
  have found: "find_macro ''{{A}}'' 0 = Some 0" "find_macro ''{{B}}'' 0 = Some 0"
    by (simp_all add: find_macro.simps backslash_def)
  have scan: "scan_macro ''{{A}}'' 0 (0 + 1) 1 = Some ''{{A}}''"
    "scan_macro ''{{B}}'' 0 (0 + 1) 1 = Some ''{{B}}''"
    by (simp_all add: scan_macro.simps substring_def)
  have sec: "char_at ''{{A}}'' 1 = Some CHR ''{''" "char_at ''{{B}}'' 1 = Some CHR ''{''"
    by (simp_all add: char_at_def)
  have st1: "children_are (ast ((start_state ?doc)\<lparr>sectionCount := 1\<rparr>)) 3 [4]"
    "ntype (ast ((start_state ?doc)\<lparr>sectionCount := 1\<rparr>) ! 3) = Paragraph"
    "children_are (ast ((start_state ?doc)\<lparr>sectionCount := 1\<rparr>)) 0 ([1] @ 3 # [])"
    "find_macro (literal (ast ((start_state ?doc)\<lparr>sectionCount := 1\<rparr>) ! 4)) 0 = Some 0"
    "scan_macro (literal (ast ((start_state ?doc)\<lparr>sectionCount := 1\<rparr>) ! 4)) 0 (0 + 1) 1 = Some ''{{B}}''"
    using f(2,4,6,8) found scan by simp_all
  have st0: "find_macro (literal (ast (start_state ?doc) ! 2)) 0 = Some 0"
    "scan_macro (literal (ast (start_state ?doc) ! 2)) 0 (0 + 1) 1 = Some ''{{A}}''"
    using f(7) found scan by simp_all
  have A: "(\<exists>st'. RenderText (start_state ?doc) (entering_event 2) = Ok st' \<and>
        children_are (ast st') 0 [5, 3] \<and>
        content (ast st' ! 5) = (HtmlInline, ''<div id=\"A\" class=\"section\" hidden=\"true\">'', []) \<and>
        sectionCount st' = 1) \<and>
     RenderFile 12 render ?doc 0 \<lparr>nextInlineID = 0, sectionCount = 5\<rparr>
       = RenderFile 12 render ?doc 0 \<lparr>nextInlineID = 0, sectionCount = 0\<rparr> \<and>
     children_are (close_final_section ?doc 0) 0 [1, 3, 5] \<and>
     content (close_final_section ?doc 0 ! 5) = (HtmlInline, ''</div>'', [])" for render
    using section_markup[where st = "start_state ?doc" and ev = "entering_event 2"
             and fuel = 12 and gl = "\<lparr>nextInlineID = 0, sectionCount = 0\<rparr>" and k = 5
             and render = render and s = ?doc,
             OF f(1) f(3) f(5) g(1) st0 sec(1) f(9)]
    by (simp add: f g substring_def) blast
  have B: "\<exists>st'. RenderText ((start_state ?doc)\<lparr>sectionCount := 1\<rparr>) (entering_event 4) = Ok st' \<and>
        children_are (ast st') 0 [1, 5] \<and>
        content (ast st' ! 5) =
          (HtmlInline, ''</div>'' @ [CHR 0x0A] @ ''<div id=\"B\" class=\"section\" hidden=\"true\">'', []) \<and>
        sectionCount st' = 2"
    using section_markup[where st = "(start_state ?doc)\<lparr>sectionCount := 1\<rparr>"
             and ev = "entering_event 4" and fuel = 12
             and gl = "\<lparr>nextInlineID = 0, sectionCount = 0\<rparr>" and k = 5
             and render = "\<lambda>s r. []" and s = ?doc,
             OF st1(1) st1(2) st1(3) g(1) st1(4) st1(5) sec(2) f(9)]
    by (simp add: f g substring_def) (auto simp: numeral_2_eq_2)
  show ?thesis
  proof (intro allI conjI)
    fix render
    show "\<exists>s'. RenderFile 12 render ?doc 0 \<lparr>nextInlineID = 0, sectionCount = 5\<rparr>
            = Some \<lparr>returned = Inr (render s' 0),
                    counters_after = \<lparr>nextInlineID = 0, sectionCount = 2\<rparr>\<rparr> \<and>
          children_are s' 0 [5, 6, 7] \<and>
          map literal s' =
            [[], [], ''{{A}}'', [], ''{{B}}'',
             ''<div id=\"A\" class=\"section\" hidden=\"true\">'',
             ''</div>'' @ [CHR 0x0A] @ ''<div id=\"B\" class=\"section\" hidden=\"true\">'',
             ''</div>'']"
      by (rule two_sections_build)
  qed (use A B in blast)+
qed

text \<open>
  Claim C4 as it is written fails at its example: between the two section nodes there is
  a newline, so that no node of the tree that is rendered for the paragraphs \<open>{{A}}\<close>
  and \<open>{{B}}\<close> has the literal \<open></div><div id="B" class="section" hidden="true">\<close>.
\<close>

theorem section_markup_has_newline:
  \<open>\<forall>render. \<exists>s'.
     RenderFile 12 render (two_paragraphs ''{{A}}'' ''{{B}}'') 0
         \<lparr>nextInlineID = 0, sectionCount = 0\<rparr>
       = Some \<lparr>returned = Inr (render s' 0),
               counters_after = \<lparr>nextInlineID = 0, sectionCount = 2\<rparr>\<rparr> \<and>
     children_are s' 0 [5, 6, 7] \<and>
     literal (s' ! 6) = ''</div>'' @ [CHR 0x0A] @ ''<div id="B" class="section" hidden="true">'' \<and>
     ''</div><div id="B" class="section" hidden="true">'' \<notin> set (map literal s')\<close>
proof (intro allI)
  fix render
  have r: "RenderFile 12 render (two_paragraphs ''{{A}}'' ''{{B}}'') 0 \<lparr>nextInlineID = 0, sectionCount = 0\<rparr>
       = RenderFile 12 render (two_paragraphs ''{{A}}'' ''{{B}}'') 0 \<lparr>nextInlineID = 0, sectionCount = 5\<rparr>"
    by (simp add: RenderFile_def cong: option.case_cong)
  obtain s' where s': "RenderFile 12 render (two_paragraphs ''{{A}}'' ''{{B}}'') 0
            \<lparr>nextInlineID = 0, sectionCount = 5\<rparr>
          = Some \<lparr>returned = Inr (render s' 0),
                  counters_after = \<lparr>nextInlineID = 0, sectionCount = 2\<rparr>\<rparr>"
        "children_are s' 0 [5, 6, 7]"
        "map literal s' =
          [[], [], ''{{A}}'', [], ''{{B}}'',
           ''<div id=\"A\" class=\"section\" hidden=\"true\">'',
           ''</div>'' @ [CHR 0x0A] @ ''<div id=\"B\" class=\"section\" hidden=\"true\">'',
           ''</div>'']"
    using two_sections_build[of render] by (elim exE conjE) (rule that)
  have "length (map literal s') = 8" by (simp add: s'(3))
  then have "literal (s' ! 6) = map literal s' ! 6" by simp
  then have l: "literal (s' ! 6) = ''</div>'' @ [CHR 0x0A] @ ''<div id=\"B\" class=\"section\" hidden=\"true\">''"
    by (simp add: s'(3))
  have n: "''</div><div id=\"B\" class=\"section\" hidden=\"true\">'' \<notin> set (map literal s')"
    by (simp add: s'(3))
  show "\<exists>s'.
     RenderFile 12 render (two_paragraphs ''{{A}}'' ''{{B}}'') 0
         \<lparr>nextInlineID = 0, sectionCount = 0\<rparr>
       = Some \<lparr>returned = Inr (render s' 0),
               counters_after = \<lparr>nextInlineID = 0, sectionCount = 2\<rparr>\<rparr> \<and>
     children_are s' 0 [5, 6, 7] \<and>
     literal (s' ! 6) = ''</div>'' @ [CHR 0x0A] @ ''<div id=\"B\" class=\"section\" hidden=\"true\">'' \<and>
     ''</div><div id=\"B\" class=\"section\" hidden=\"true\">'' \<notin> set (map literal s')"
    using s'(1,2) l n unfolding r by blast
qed

subsection \<open>Where a section may be declared\<close>

text \<open>
  Claim C3. The source tests two things before it accepts a section declaration: the
  leaf has no previous sibling, and its parent is a paragraph (lines 745-759). It does
  not test what stands before the token in the leaf's own literal, nor where the
  paragraph stands. So RenderFile succeeds on the document whose one paragraph is the
  text \<open>abc {{Foo}}\<close>: the paragraph, with the text before the token, is replaced by
  the section node. And it succeeds on the document whose one block is a block quote
  with the paragraph \<open>{{Foo}}\<close>: the section node becomes the child of the block
  quote. In both cases the claim, like the messages of the source, asks for
  InvalidSectionPlacement.
\<close>

theorem section_placement_not_checked:
  \<open>\<forall>render.
     (\<exists>s'. RenderFile 12 render (leaf_document Text ''abc {{Foo}}'') 0
              \<lparr>nextInlineID = 0, sectionCount = 0\<rparr>
            = Some \<lparr>returned = Inr (render s' 0),
                    counters_after = \<lparr>nextInlineID = 0, sectionCount = 1\<rparr>\<rparr> \<and>
          children_are s' 0 [3, 4] \<and>
          map ntype s' = [Document, Paragraph, Text, HtmlInline, HtmlInline] \<and>
          literal (s' ! 3) = ''<div id="Foo" class="section" hidden="true">'' \<and>
          literal (s' ! 4) = ''</div>'') \<and>
     (\<exists>s'. RenderFile 12 render (quoted_document ''{{Foo}}'') 0
              \<lparr>nextInlineID = 0, sectionCount = 0\<rparr>
            = Some \<lparr>returned = Inr (render s' 0),
                    counters_after = \<lparr>nextInlineID = 0, sectionCount = 1\<rparr>\<rparr> \<and>
          children_are s' 0 [1, 5] \<and> children_are s' 1 [4] \<and>
          map ntype s' = [Document, BlockQuote, Paragraph, Text, HtmlInline, HtmlInline] \<and>
          literal (s' ! 4) = ''<div id="Foo" class="section" hidden="true">'' \<and>
          literal (s' ! 5) = ''</div>'')\<close>
proof (intro allI conjI)
  fix render
  show \<open>\<exists>s'. RenderFile 12 render (leaf_document Text ''abc {{Foo}}'') 0
              \<lparr>nextInlineID = 0, sectionCount = 0\<rparr>
            = Some \<lparr>returned = Inr (render s' 0),
                    counters_after = \<lparr>nextInlineID = 0, sectionCount = 1\<rparr>\<rparr> \<and>
          children_are s' 0 [3, 4] \<and>
          map ntype s' = [Document, Paragraph, Text, HtmlInline, HtmlInline] \<and>
          literal (s' ! 3) = ''<div id="Foo" class="section" hidden="true">'' \<and>
          literal (s' ! 4) = ''</div>''\<close>
    apply (rule exI[where x = \<open>
     [\<lparr>ntype = Document, literal = [], destination = [], parent = None,
       firstChild = Some 3, lastChild = Some 4, prev = None, next_sibling = None\<rparr>,
      \<lparr>ntype = Paragraph, literal = [], destination = [], parent = None,
       firstChild = Some 2, lastChild = Some 2, prev = None, next_sibling = None\<rparr>,
      \<lparr>ntype = Text, literal = ''abc {{Foo}}'', destination = [], parent = Some 1,
       firstChild = None, lastChild = None, prev = None, next_sibling = None\<rparr>,
      \<lparr>ntype = HtmlInline, literal = ''<div id="Foo" class="section" hidden="true">'',
       destination = [], parent = Some 0,
       firstChild = None, lastChild = None, prev = None, next_sibling = Some 4\<rparr>,
      \<lparr>ntype = HtmlInline, literal = ''</div>'', destination = [], parent = Some 0,
       firstChild = None, lastChild = None, prev = Some 3, next_sibling = None\<rparr>]\<close>])
    apply (simp add: leaf_document_def RenderFile_def eval_nat_numeral render_eval
        store_eval string_eval Let_def find_macro.simps scan_macro.simps children_are_def
        cong: eval_congs)
    done
  show \<open>\<exists>s'. RenderFile 12 render (quoted_document ''{{Foo}}'') 0
              \<lparr>nextInlineID = 0, sectionCount = 0\<rparr>
            = Some \<lparr>returned = Inr (render s' 0),
                    counters_after = \<lparr>nextInlineID = 0, sectionCount = 1\<rparr>\<rparr> \<and>
          children_are s' 0 [1, 5] \<and> children_are s' 1 [4] \<and>
          map ntype s' = [Document, BlockQuote, Paragraph, Text, HtmlInline, HtmlInline] \<and>
          literal (s' ! 4) = ''<div id="Foo" class="section" hidden="true">'' \<and>
          literal (s' ! 5) = ''</div>''\<close>
    apply (rule exI[where x = \<open>
     [\<lparr>ntype = Document, literal = [], destination = [], parent = None,
       firstChild = Some 1, lastChild = Some 5, prev = None, next_sibling = None\<rparr>,
      \<lparr>ntype = BlockQuote, literal = [], destination = [], parent = Some 0,
       firstChild = Some 4, lastChild = Some 4, prev = None, next_sibling = Some 5\<rparr>,
      \<lparr>ntype = Paragraph, literal = [], destination = [], parent = None,
       firstChild = Some 3, lastChild = Some 3, prev = None, next_sibling = None\<rparr>,
      \<lparr>ntype = Text, literal = ''{{Foo}}'', destination = [], parent = Some 2,
       firstChild = None, lastChild = None, prev = None, next_sibling = None\<rparr>,
      \<lparr>ntype = HtmlInline, literal = ''<div id="Foo" class="section" hidden="true">'',
       destination = [], parent = Some 1,
       firstChild = None, lastChild = None, prev = None, next_sibling = None\<rparr>,
      \<lparr>ntype = HtmlInline, literal = ''</div>'', destination = [], parent = Some 0,
       firstChild = None, lastChild = None, prev = Some 1, next_sibling = None\<rparr>]\<close>])
    apply (simp add: quoted_document_def RenderFile_def eval_nat_numeral render_eval
        store_eval string_eval Let_def find_macro.simps scan_macro.simps children_are_def
        cong: eval_congs)
    done
qed

subsection \<open>Backslashes inside a token\<close>

text \<open>
  Claim C2. The outer loop of RenderText skips the character after a backslash (lines
  706-709); the inner loop, which looks for the end of the token, does not (lines
  715-728). Take the text that consists of \<open>{@a\<close>, a backslash and \<open>}b}\<close>. The
  escaped closing brace ends the token: the scan returns \<open>{@a\<close>, the backslash and
  \<open>}\<close>, and RenderFile succeeds with a span whose attribute is \<open>@a\<close> and the
  backslash, followed by the text \<open>b}\<close>. By the claim the token is the whole text and
  no backslash is left. An escaped opening brace is counted likewise: the scan of
  \<open>{@a\<close>, a backslash and \<open>{b}\<close> finds no end.
\<close>

theorem escaped_brace_ends_token:
  \<open>\<forall>render.
     scan_macro (''{@a'' @ [backslash] @ ''}b}'') 0 (0 + 1) 1 = Some (''{@a'' @ [backslash] @ ''}'') \<and>
     scan_macro (''{@a'' @ [backslash] @ ''{b}'') 0 (0 + 1) 1 = None \<and>
     (\<exists>s'. RenderFile 12 render (leaf_document Text (''{@a'' @ [backslash] @ ''}b}'')) 0
              \<lparr>nextInlineID = 0, sectionCount = 0\<rparr>
            = Some \<lparr>returned = Inr (render s' 0),
                    counters_after = \<lparr>nextInlineID = 0, sectionCount = 0\<rparr>\<rparr> \<and>
          children_are s' 0 [1, 5] \<and> children_are s' 1 [3, 4] \<and>
          map ntype s' = [Document, Paragraph, Text, HtmlInline, Text, HtmlInline] \<and>
          literal (s' ! 3) = ''<span data-expand-macro="@a'' @ [backslash] @ ''"></span>'' \<and>
          literal (s' ! 4) = ''b}'' \<and>
          backslash \<in> set (literal (s' ! 3)))\<close>
proof (intro allI conjI)
  fix render
  show "scan_macro (''{@a'' @ [backslash] @ ''}b}'') 0 (0 + 1) 1 = Some (''{@a'' @ [backslash] @ ''}'')"
    by (simp add: scan_macro.simps string_eval)
  show "scan_macro (''{@a'' @ [backslash] @ ''{b}'') 0 (0 + 1) 1 = None"
    by (simp add: scan_macro.simps string_eval)
  show \<open>\<exists>s'. RenderFile 12 render (leaf_document Text (''{@a'' @ [backslash] @ ''}b}'')) 0
              \<lparr>nextInlineID = 0, sectionCount = 0\<rparr>
            = Some \<lparr>returned = Inr (render s' 0),
                    counters_after = \<lparr>nextInlineID = 0, sectionCount = 0\<rparr>\<rparr> \<and>
          children_are s' 0 [1, 5] \<and> children_are s' 1 [3, 4] \<and>
          map ntype s' = [Document, Paragraph, Text, HtmlInline, Text, HtmlInline] \<and>
          literal (s' ! 3) = ''<span data-expand-macro="@a'' @ [backslash] @ ''"></span>'' \<and>
          literal (s' ! 4) = ''b}'' \<and>
          backslash \<in> set (literal (s' ! 3))\<close>
    apply (rule exI[where x = \<open>
     [\<lparr>ntype = Document, literal = [], destination = [], parent = None,
       firstChild = Some 1, lastChild = Some 5, prev = None, next_sibling = None\<rparr>,
      \<lparr>ntype = Paragraph, literal = [], destination = [], parent = Some 0,
       firstChild = Some 3, lastChild = Some 4, prev = None, next_sibling = Some 5\<rparr>,
      \<lparr>ntype = Text, literal = [], destination = [], parent = None,
       firstChild = None, lastChild = None, prev = None, next_sibling = None\<rparr>,
      \<lparr>ntype = HtmlInline,
       literal = ''<span data-expand-macro="@a'' @ [backslash] @ ''"></span>'',
       destination = [], parent = Some 1,
       firstChild = None, lastChild = None, prev = None, next_sibling = Some 4\<rparr>,
      \<lparr>ntype = Text, literal = ''b}'', destination = [], parent = Some 1,
       firstChild = None, lastChild = None, prev = Some 3, next_sibling = None\<rparr>,
      \<lparr>ntype = HtmlInline, literal = ''</div>'', destination = [], parent = Some 0,
       firstChild = None, lastChild = None, prev = Some 1, next_sibling = None\<rparr>]\<close>])
    apply (simp add: leaf_document_def RenderFile_def eval_nat_numeral render_eval
        store_eval string_eval Let_def find_macro.simps scan_macro.simps children_are_def
        cong: eval_congs)
    done
qed

end
